theory Spec2Isabelle
  imports Main "HOL-Library.AList"
begin

section \<open>The crossing resolver (inbrain-exercise-uploader/main.go, csv processor)\<close>

text \<open>
  Go's \<open>int\<close> is modelled as \<open>int\<close>: the ids come from \<open>strconv.Atoi\<close> and the JSON
  decoder, which keep them in the 64-bit range, and the resolver only compares them,
  except for the group counter, whose wrap-around is written out. A Go map that the program iterates over is an association
  list with distinct keys; the order of the list stands for the iteration order the
  runtime happens to choose, lookup is \<open>map_of\<close> and \<open>m[k] = v\<close> is \<open>AList.update\<close>.
\<close>

record ExerciseGroup =
  ID :: int
  ProblemIDs :: "int list"
  ProblemVideos :: "bool list"
  Representative :: int
  HasRepresentative :: bool
  RepresentativeHasVideo :: bool

text \<open>
  The selection reason is a fixed Korean sentence per branch; the model keeps one
  constructor per sentence, in the order the sentences appear in the source: empty group;
  existing representative is in the new group (has video); existing representative is in
  the new group; no crossing, highest id; no existing representative, highest id; existing
  representative not in the new group, highest id.
\<close>

datatype reason =
  EmptyGroup
  | ExistingInNewGroupVideo
  | ExistingInNewGroup
  | NoCrossingHighest
  | NoExistingHighest
  | ExistingNotInNewGroupHighest
  | ExistingRepresentative

record RepresentativeInfo =
  ProblemID :: int
  HasSolutionVideo :: bool
  InfoSelectionReason :: reason

record CrossingGroup =
  CrossingID :: int
  Intersection :: "int list"

record CrossingResult =
  NewGroupID :: int
  BaseGroupID :: int
  ResultProblemIDs :: "int list"
  CrossingGroups :: "CrossingGroup list"
  ResultRepresentative :: int
  SelectionReason :: reason

subsection \<open>buildProblemIndex\<close>

text \<open>Reading a Go map of slices at a missing key gives the nil slice.\<close>

definition indexAt :: "(int \<rightharpoonup> int list) \<Rightarrow> int \<Rightarrow> int list" where
  "indexAt index p = (case index p of None \<Rightarrow> [] | Some gs \<Rightarrow> gs)"

primrec indexProblems :: "int \<Rightarrow> int list \<Rightarrow> (int \<rightharpoonup> int list) \<Rightarrow> (int \<rightharpoonup> int list)" where
  "indexProblems gid [] index = index"
| "indexProblems gid (problemID # rest) index =
     indexProblems gid rest (index(problemID \<mapsto> indexAt index problemID @ [gid]))"

primrec indexGroups :: "(int \<times> ExerciseGroup) list \<Rightarrow> (int \<rightharpoonup> int list) \<Rightarrow> (int \<rightharpoonup> int list)" where
  "indexGroups [] index = index"
| "indexGroups (kv # rest) index =
     indexGroups rest (indexProblems (ID (snd kv)) (ProblemIDs (snd kv)) index)"

definition buildProblemIndex :: "(int \<times> ExerciseGroup) list \<Rightarrow> (int \<rightharpoonup> int list)" where
  "buildProblemIndex groups = indexGroups groups Map.empty"

subsection \<open>findIntersection\<close>

text \<open>
  \<open>elementMap\<close> and \<open>seen\<close> are only tested for membership, so each is the list of the
  keys set so far.
\<close>

primrec intersectLoop :: "int list \<Rightarrow> int list \<Rightarrow> int list \<Rightarrow> int list \<Rightarrow> int list" where
  "intersectLoop elementMap [] seen intersection = intersection"
| "intersectLoop elementMap (v # rest) seen intersection =
     (if v \<in> set elementMap \<and> v \<notin> set seen
      then intersectLoop elementMap rest (v # seen) (intersection @ [v])
      else intersectLoop elementMap rest seen intersection)"

definition findIntersection :: "int list \<Rightarrow> int list \<Rightarrow> int list" where
  "findIntersection slice1 slice2 = intersectLoop slice1 slice2 [] []"

subsection \<open>getMaxGroupID\<close>

primrec maxLoop :: "int list \<Rightarrow> int \<Rightarrow> int" where
  "maxLoop [] maxID = maxID"
| "maxLoop (i # rest) maxID = maxLoop rest (if i > maxID then i else maxID)"

definition getMaxGroupID :: "(int \<times> ExerciseGroup) list \<Rightarrow> int" where
  "getMaxGroupID groups = maxLoop (map fst groups) 0"

subsection \<open>Representative selection\<close>

primrec collectRepresentatives ::
  "CrossingGroup list \<Rightarrow> (int \<times> ExerciseGroup) list \<Rightarrow> RepresentativeInfo list \<Rightarrow> RepresentativeInfo list" where
  "collectRepresentatives [] existingGroups acc = acc"
| "collectRepresentatives (crossing # rest) existingGroups acc =
     collectRepresentatives rest existingGroups
       (case map_of existingGroups (CrossingID crossing) of
          None \<Rightarrow> acc
        | Some grp \<Rightarrow>
            if HasRepresentative grp \<and> Representative grp > 0
            then acc @ [\<lparr>ProblemID = Representative grp,
                         HasSolutionVideo = RepresentativeHasVideo grp,
                         InfoSelectionReason = ExistingRepresentative\<rparr>]
            else acc)"

primrec matchInGroup :: "RepresentativeInfo \<Rightarrow> int list \<Rightarrow> RepresentativeInfo list \<Rightarrow> RepresentativeInfo list" where
  "matchInGroup rep [] acc = acc"
| "matchInGroup rep (problemID # rest) acc =
     matchInGroup rep rest (if problemID = ProblemID rep then acc @ [rep] else acc)"

primrec collectCandidates :: "RepresentativeInfo list \<Rightarrow> int list \<Rightarrow> RepresentativeInfo list \<Rightarrow> RepresentativeInfo list" where
  "collectCandidates [] newGroup acc = acc"
| "collectCandidates (rep # rest) newGroup acc =
     collectCandidates rest newGroup (matchInGroup rep newGroup acc)"

primrec firstWithVideo :: "RepresentativeInfo list \<Rightarrow> int option" where
  "firstWithVideo [] = None"
| "firstWithVideo (rep # rest) =
     (if HasSolutionVideo rep then Some (ProblemID rep) else firstWithVideo rest)"

primrec highestLoop :: "int list \<Rightarrow> int \<Rightarrow> int" where
  "highestLoop [] highest = highest"
| "highestLoop (problemID # rest) highest =
     highestLoop rest (if problemID > highest then problemID else highest)"

text \<open>
  \<open>selectBestFromNewGroup\<close> reads \<open>newGroup[0]\<close>; its only caller has returned before
  on an empty group, and the model returns the same pair there.
\<close>

definition selectBestFromNewGroup ::
  "int list \<Rightarrow> CrossingGroup list \<Rightarrow> RepresentativeInfo list \<Rightarrow> int \<times> reason" where
  "selectBestFromNewGroup newGroup crossingGroups existingRepresentatives =
     (case newGroup of
        [] \<Rightarrow> (0, EmptyGroup)
      | first # _ \<Rightarrow>
          (highestLoop newGroup first,
           if crossingGroups = [] then NoCrossingHighest
           else if existingRepresentatives = [] then NoExistingHighest
           else ExistingNotInNewGroupHighest))"

definition selectBestRepresentative ::
  "int list \<Rightarrow> CrossingGroup list \<Rightarrow> (int \<times> ExerciseGroup) list \<Rightarrow> int \<times> reason" where
  "selectBestRepresentative newGroup crossingGroups existingGroups =
     (if newGroup = [] then (0, EmptyGroup)
      else
        let existingRepresentatives = collectRepresentatives crossingGroups existingGroups [];
            candidateRepresentatives = collectCandidates existingRepresentatives newGroup []
        in case candidateRepresentatives of
             [] \<Rightarrow> selectBestFromNewGroup newGroup crossingGroups existingRepresentatives
           | c # _ \<Rightarrow>
               (case firstWithVideo candidateRepresentatives of
                  Some p \<Rightarrow> (p, ExistingInNewGroupVideo)
                | None \<Rightarrow> (ProblemID c, ExistingInNewGroup)))"

subsection \<open>processGroup\<close>

text \<open>
  \<open>relatedGroupIDs\<close> is a set of group ids (a map to \<open>true\<close>): the list of its keys in
  the order they were first stored.
\<close>

primrec addRelated :: "int list \<Rightarrow> int list \<Rightarrow> int list" where
  "addRelated [] related = related"
| "addRelated (groupID # rest) related =
     addRelated rest (if groupID \<in> set related then related else related @ [groupID])"

primrec relatedLoop :: "int list \<Rightarrow> (int \<rightharpoonup> int list) \<Rightarrow> int list \<Rightarrow> int list" where
  "relatedLoop [] problemIndex related = related"
| "relatedLoop (problemID # rest) problemIndex related =
     relatedLoop rest problemIndex
       (case problemIndex problemID of
          None \<Rightarrow> related
        | Some groupIDs \<Rightarrow> addRelated groupIDs related)"

primrec crossingLoop ::
  "int list \<Rightarrow> int list \<Rightarrow> (int \<times> ExerciseGroup) list \<Rightarrow> CrossingGroup list \<times> int \<Rightarrow> CrossingGroup list \<times> int" where
  "crossingLoop [] newGroup existingGroups acc = acc"
| "crossingLoop (groupID # rest) newGroup existingGroups acc =
     crossingLoop rest newGroup existingGroups
       (case map_of existingGroups groupID of
          None \<Rightarrow> acc
        | Some grp \<Rightarrow>
            let intersection = findIntersection newGroup (ProblemIDs grp)
            in if length intersection > 0
               then (fst acc @ [\<lparr>CrossingID = groupID, Intersection = intersection\<rparr>],
                     if groupID > snd acc then groupID else snd acc)
               else acc)"

text \<open>
  The second loop ranges over the map \<open>relatedGroupIDs\<close>, and Go visits the keys of a map
  in an order of the runtime's choosing. \<open>mapOrder\<close> stands for that choice: it takes the
  keys as they were stored and gives them in the order in which the loop visits them.
\<close>

definition findCrossingGroups ::
  "(int list \<Rightarrow> int list) \<Rightarrow> int list \<Rightarrow> (int \<rightharpoonup> int list) \<Rightarrow> (int \<times> ExerciseGroup) list
     \<Rightarrow> CrossingGroup list \<times> int" where
  "findCrossingGroups mapOrder newGroup problemIndex existingGroups =
     crossingLoop (mapOrder (relatedLoop newGroup problemIndex [])) newGroup existingGroups
       ([], 0)"

definition makeResult ::
  "int list \<Rightarrow> CrossingGroup list \<times> int \<Rightarrow> (int \<times> ExerciseGroup) list \<Rightarrow> int \<Rightarrow> CrossingResult" where
  "makeResult newGroup crossing existingGroups newGroupID =
     (let sel = selectBestRepresentative newGroup (fst crossing) existingGroups
      in \<lparr>NewGroupID = newGroupID, BaseGroupID = snd crossing, ResultProblemIDs = newGroup,
          CrossingGroups = fst crossing, ResultRepresentative = fst sel,
          SelectionReason = snd sel\<rparr>)"

text \<open>
  The one place where the resolver computes with an \<open>int\<close> is the group counter. Go's
  \<open>int\<close> has 64 bits here, and \<open>+\<close> and \<open>++\<close> wrap around.
\<close>

definition wrapInt :: "int \<Rightarrow> int" where
  "wrapInt n = (n + 2 ^ 63) mod 2 ^ 64 - 2 ^ 63"

text \<open>
  \<open>processGroup\<close> run by one goroutine alone: the counter behind \<open>nextGroupID\<close> is
  passed in and returned.
\<close>

definition processGroup ::
  "(int list \<Rightarrow> int list) \<Rightarrow> int list \<Rightarrow> (int \<rightharpoonup> int list) \<Rightarrow> (int \<times> ExerciseGroup) list
     \<Rightarrow> int \<Rightarrow> CrossingResult \<times> int" where
  "processGroup mapOrder newGroup problemIndex existingGroups nextGroupID =
     (let crossing = findCrossingGroups mapOrder newGroup problemIndex existingGroups;
          newGroupID = nextGroupID
      in (makeResult newGroup crossing existingGroups newGroupID, wrapInt (nextGroupID + 1)))"


subsection \<open>loadExerciseGroups\<close>

text \<open>
  The library functions the loader calls, on byte strings. \<open>Atoi\<close> is Go's
  \<open>strconv.Atoi\<close> for a 64-bit \<open>int\<close>: an optional sign, then at least one decimal
  digit and nothing else. It returns the value and whether the error is nil; on a syntax
  error the value is 0, out of range it is the nearest bound. \<open>Split\<close> is
  \<open>strings.Split\<close> with the separator \<open>","\<close>.
\<close>

definition isDigit :: "char \<Rightarrow> bool" where
  "isDigit c \<longleftrightarrow> 48 \<le> (of_char c :: nat) \<and> (of_char c :: nat) \<le> 57"

primrec digitsValue :: "string \<Rightarrow> int \<Rightarrow> int option" where
  "digitsValue [] n = Some n"
| "digitsValue (c # cs) n =
     (if isDigit c then digitsValue cs (n * 10 + (int (of_char c) - 48)) else None)"

definition Atoi :: "string \<Rightarrow> int \<times> bool" where
  "Atoi s =
     (case s of
        [] \<Rightarrow> (0, False)
      | c # cs \<Rightarrow>
          let neg = (c = CHR ''-'');
              body = (if c = CHR ''-'' \<or> c = CHR ''+'' then cs else s)
          in if body = [] then (0, False)
             else (case digitsValue body 0 of
                     None \<Rightarrow> (0, False)
                   | Some n \<Rightarrow>
                       let v = (if neg then - n else n)
                       in if v < - (2 ^ 63) then (- (2 ^ 63), False)
                          else if v > 2 ^ 63 - 1 then (2 ^ 63 - 1, False)
                          else (v, True)))"

text \<open>
  \<open>strings.TrimSpace\<close> removes the leading and the trailing white space of a string, as
  Unicode defines it (\<open>unicode.IsSpace\<close>). A Go string is a sequence of bytes holding
  UTF-8, so the white-space runes are listed by their encodings: tab, line feed, vertical
  tab, form feed, carriage return and space; U+0085 and U+00A0; U+1680; U+2000 to U+200A;
  U+2028, U+2029, U+202F, U+205F and U+3000. A byte sequence that is none of these decodes
  to a rune that is not white space, or to no rune, and stops the trimming.
\<close>

definition spaceRunes :: "string list" where
  "spaceRunes =
     [[CHR 0x09], [CHR 0x0A], [CHR 0x0B], [CHR 0x0C], [CHR 0x0D], [CHR 0x20],
      [CHR 0xC2, CHR 0x85], [CHR 0xC2, CHR 0xA0], [CHR 0xE1, CHR 0x9A, CHR 0x80],
      [CHR 0xE2, CHR 0x80, CHR 0x80], [CHR 0xE2, CHR 0x80, CHR 0x81],
      [CHR 0xE2, CHR 0x80, CHR 0x82], [CHR 0xE2, CHR 0x80, CHR 0x83],
      [CHR 0xE2, CHR 0x80, CHR 0x84], [CHR 0xE2, CHR 0x80, CHR 0x85],
      [CHR 0xE2, CHR 0x80, CHR 0x86], [CHR 0xE2, CHR 0x80, CHR 0x87],
      [CHR 0xE2, CHR 0x80, CHR 0x88], [CHR 0xE2, CHR 0x80, CHR 0x89],
      [CHR 0xE2, CHR 0x80, CHR 0x8A], [CHR 0xE2, CHR 0x80, CHR 0xA8],
      [CHR 0xE2, CHR 0x80, CHR 0xA9], [CHR 0xE2, CHR 0x80, CHR 0xAF],
      [CHR 0xE2, CHR 0x81, CHR 0x9F], [CHR 0xE3, CHR 0x80, CHR 0x80]]"

function stripLeading :: "string list \<Rightarrow> string \<Rightarrow> string" where
  "stripLeading runes s =
     (case find (\<lambda>r. r \<noteq> [] \<and> take (length r) s = r) runes of
        None \<Rightarrow> s
      | Some r \<Rightarrow> stripLeading runes (drop (length r) s))"
  by pat_completeness auto
termination
proof (relation "measure (\<lambda>(runes, s). length s)")
  show "wf (measure (\<lambda>(runes, s). length s))" by simp
next
  fix runes :: "string list" and s r :: string
  assume "find (\<lambda>r. r \<noteq> [] \<and> take (length r) s = r) runes = Some r"
  then have r: "r \<noteq> []" and t: "take (length r) s = r"
    by (auto simp: find_Some_iff)
  from t have "length r = min (length s) (length r)"
    by (metis length_take)
  with r have "0 < length r" and "length r \<le> length s"
    by simp_all
  then show "((runes, drop (length r) s), (runes, s)) \<in> measure (\<lambda>(runes, s). length s)"
    by (cases r) auto
qed

declare stripLeading.simps [simp del]

definition TrimSpace :: "string \<Rightarrow> string" where
  "TrimSpace s = rev (stripLeading (map rev spaceRunes) (rev (stripLeading spaceRunes s)))"

primrec splitLoop :: "string \<Rightarrow> string \<Rightarrow> string list" where
  "splitLoop [] cur = [cur]"
| "splitLoop (c # cs) cur =
     (if c = CHR '','' then cur # splitLoop cs [] else splitLoop cs (cur @ [c]))"

definition Split :: "string \<Rightarrow> string list" where
  "Split s = splitLoop s []"

text \<open>
  The csv reader is the sequence of the results of its \<open>Read\<close> calls, a record or an
  error each; the end of the list is \<open>io.EOF\<close>. Indexing a record beyond its fields
  panics.
\<close>

datatype load_error = ReadError | EndOfFile | IndexOutOfRange

primrec problemIDsLoop :: "string list \<Rightarrow> int list \<Rightarrow> int list" where
  "problemIDsLoop [] problemIDs = problemIDs"
| "problemIDsLoop (problemStr # rest) problemIDs =
     problemIDsLoop rest
       (if snd (Atoi (TrimSpace problemStr))
        then problemIDs @ [fst (Atoi (TrimSpace problemStr))] else problemIDs)"

primrec videosLoop :: "string list \<Rightarrow> bool list \<Rightarrow> bool list" where
  "videosLoop [] problemVideos = problemVideos"
| "videosLoop (videoStr # rest) problemVideos =
     videosLoop rest (problemVideos @ [TrimSpace videoStr = ''true''])"

definition rowGroup :: "int \<Rightarrow> string list \<Rightarrow> ExerciseGroup" where
  "rowGroup groupID record =
     \<lparr>ID = groupID,
      ProblemIDs = (if record ! 1 \<noteq> [] then problemIDsLoop (Split (record ! 1)) [] else []),
      ProblemVideos =
        (if length record > 2 \<and> record ! 2 \<noteq> [] then videosLoop (Split (record ! 2)) [] else []),
      Representative =
        (if length record > 3 \<and> record ! 3 \<noteq> [] then fst (Atoi (record ! 3)) else 0),
      HasRepresentative = (length record > 4 \<and> record ! 4 = ''true''),
      RepresentativeHasVideo = (length record > 5 \<and> record ! 5 = ''true'')\<rparr>"

fun loadRows ::
  "(load_error + string list) list \<Rightarrow> (int \<times> ExerciseGroup) list
     \<Rightarrow> load_error + (int \<times> ExerciseGroup) list" where
  "loadRows [] groups = Inr groups"
| "loadRows (Inl err # rest) groups = Inl err"
| "loadRows (Inr record # rest) groups =
     (if length record < 1 then Inl IndexOutOfRange
      else if \<not> snd (Atoi (record ! 0)) then loadRows rest groups
      else if length record < 2 then Inl IndexOutOfRange
      else loadRows rest
             (AList.update (fst (Atoi (record ! 0))) (rowGroup (fst (Atoi (record ! 0))) record)
                groups))"

definition loadExerciseGroups ::
  "(load_error + string list) list \<Rightarrow> load_error + (int \<times> ExerciseGroup) list" where
  "loadExerciseGroups reads =
     (case reads of
        [] \<Rightarrow> Inl EndOfFile
      | Inl err # rest \<Rightarrow> Inl err
      | Inr header # rest \<Rightarrow> loadRows rest [])"


subsection \<open>processGroups and its workers\<close>

text \<open>
  \<open>processGroups\<close> starts \<open>numWorkers\<close> goroutines that share the \<open>jobs\<close> channel, the
  results channel and the counter \<open>nextGroupID\<close>. A worker that has not returned is at
  one of three places: at the head of its \<open>for i := range jobs\<close> loop; inside
  \<open>processGroup\<close> before the statement \<open>newGroupID := *nextGroupID\<close>, the crossing groups
  computed; or before the statement \<open>*nextGroupID++\<close>, holding the \<open>newGroupID\<close> it has
  read. The two statements are separate and nothing in the source orders them between
  goroutines, so a run is a schedule: the list of the workers in the order in which they
  take their next step. The increment itself is taken as one step. The job channel is
  filled with every index before the first step, and a worker that finds it empty
  returns. The progress lines a worker prints are left out.
\<close>

datatype worker_pc =
  Receiving
  | BeforeLoad "int list" "CrossingGroup list \<times> int"
  | BeforeIncrement "int list" "CrossingGroup list \<times> int" int
  | Returned

record pool =
  jobs :: "nat list"
  nextGroupID :: int
  workerPCs :: "worker_pc list"
  resultsChan :: "CrossingResult list"

definition numWorkers :: nat where
  "numWorkers = 8"

definition workerStep ::
  "(int list \<Rightarrow> int list) \<Rightarrow> int list list \<Rightarrow> (int \<rightharpoonup> int list) \<Rightarrow> (int \<times> ExerciseGroup) list
     \<Rightarrow> nat \<Rightarrow> pool \<Rightarrow> pool" where
  "workerStep mapOrder newGroups problemIndex existingGroups w p =
     (if w \<ge> length (workerPCs p) then p
      else case workerPCs p ! w of
        Receiving \<Rightarrow>
          (case jobs p of
             [] \<Rightarrow> p\<lparr>workerPCs := (workerPCs p)[w := Returned]\<rparr>
           | i # rest \<Rightarrow>
               if length (newGroups ! i) = 0 then p\<lparr>jobs := rest\<rparr>
               else p\<lparr>jobs := rest,
                      workerPCs := (workerPCs p)[w := BeforeLoad (newGroups ! i)
                        (findCrossingGroups mapOrder (newGroups ! i) problemIndex
                           existingGroups)]\<rparr>)
      | BeforeLoad newGroup crossing \<Rightarrow>
          p\<lparr>workerPCs := (workerPCs p)[w := BeforeIncrement newGroup crossing (nextGroupID p)]\<rparr>
      | BeforeIncrement newGroup crossing newGroupID \<Rightarrow>
          p\<lparr>nextGroupID := wrapInt (nextGroupID p + 1),
            workerPCs := (workerPCs p)[w := Receiving],
            resultsChan := resultsChan p @ [makeResult newGroup crossing existingGroups newGroupID]\<rparr>
      | Returned \<Rightarrow> p)"

primrec runSchedule ::
  "(int list \<Rightarrow> int list) \<Rightarrow> int list list \<Rightarrow> (int \<rightharpoonup> int list) \<Rightarrow> (int \<times> ExerciseGroup) list
     \<Rightarrow> nat list \<Rightarrow> pool \<Rightarrow> pool" where
  "runSchedule mapOrder newGroups problemIndex existingGroups [] p = p"
| "runSchedule mapOrder newGroups problemIndex existingGroups (w # ws) p =
     runSchedule mapOrder newGroups problemIndex existingGroups ws
       (workerStep mapOrder newGroups problemIndex existingGroups w p)"

definition startPool :: "int list list \<Rightarrow> (int \<times> ExerciseGroup) list \<Rightarrow> pool" where
  "startPool newGroups existingGroups =
     \<lparr>jobs = [0 ..< length newGroups],
      nextGroupID = wrapInt (getMaxGroupID existingGroups + 1),
      workerPCs = replicate numWorkers Receiving,
      resultsChan = []\<rparr>"

text \<open>
  \<open>wg.Wait()\<close> returns once every worker has returned; the results are then sorted by
  \<open>NewGroupID\<close> (\<open>sort.Slice\<close> may order records with equal ids either way; the model
  keeps them in the order of the channel). A schedule that leaves a worker unfinished is
  not a run, and gives \<open>None\<close>.
\<close>

definition processGroups ::
  "(int list \<Rightarrow> int list) \<Rightarrow> nat list \<Rightarrow> int list list \<Rightarrow> (int \<rightharpoonup> int list)
     \<Rightarrow> (int \<times> ExerciseGroup) list \<Rightarrow> CrossingResult list option" where
  "processGroups mapOrder schedule newGroups problemIndex existingGroups =
     (let p = runSchedule mapOrder newGroups problemIndex existingGroups schedule
                (startPool newGroups existingGroups)
      in if list_all (\<lambda>pc. pc = Returned) (workerPCs p)
         then Some (sort_key NewGroupID (resultsChan p)) else None)"


section \<open>The resolution applier (inbrain-exercise-uploader/csv_uploader/main.go)\<close>

text \<open>
  The tables of the relational store, as far as the applier's statements read and write
  them. An exercise row carries the integer its \<open>metadata->>'mathflatProblemId'\<close> denotes
  (\<open>None\<close> when the attribute is absent), and \<open>Deleted\<close> stands for
  \<open>deleted_at IS NOT NULL\<close>; a query without \<open>ORDER BY\<close> returns its rows in the order
  of the table. The \<open>updated_at\<close> column is left out.
\<close>

record Exercise =
  ExID :: int
  MathflatProblemId :: "int option"
  CategoryID :: int
  ExerciseGroupID :: "int option"
  IsRepresentative :: bool
  SolutionVideoID :: "int option"
  Deleted :: bool

record GroupRow =
  GroupID :: int
  GroupCategoryID :: int
  GroupDeleted :: bool

record Store =
  Exercises :: "Exercise list"
  ExerciseGroups :: "GroupRow list"

text \<open>
  One constructor per \<open>fmt.Errorf\<close> of the source, wrapping the error it wraps;
  \<open>DriverError\<close> is an error of the database driver, \<open>ScanError\<close> one of \<open>Scan\<close> and
  \<open>ErrTxDone\<close> the error of \<open>database/sql\<close> for a transaction that has already been
  committed or rolled back.
\<close>

datatype error =
  DriverError
  | ScanError
  | ErrTxDone
  | FailedToGetCategoryID int error
  | FailedToCreateGroup error
  | FailedToMarkDeleted int error
  | FailedToUpdateExercise int error
  | FailedToClearFlags error
  | FailedToSetRepresentative int error
  | FailedToQueryRepresentatives error
  | FailedToScanRepresentative error
  | FailedToProcessResult int error
  | FailedToProcessBatch nat nat error

datatype event = WarningSkippingGroup int | ProcessedBatch nat nat nat nat

text \<open>
  The database together with the program's handle on it. \<open>Committed\<close> is what the
  database holds durably. \<open>TxOpen\<close> says whether the transaction of \<open>processBatch\<close> is
  open, and \<open>TxStore\<close> is the tables as that transaction sees and writes them.
  \<open>GroupSeq\<close> is the sequence that numbers new \<open>exercise_groups\<close> rows; it is not part
  of either store, since a sequence is not reset by a rollback. \<open>Stdout\<close> is what the
  program has printed. \<open>Faults\<close> says for each coming call of the driver whether it fails
  (a connection drop, a constraint violation); past the end of the list no call fails.

  A function that can fail returns \<open>Inl\<close> of the error and the state at the failure, so
  that what a failed call has consumed, numbered or printed is not lost.
\<close>

record Tx =
  Committed :: Store
  TxStore :: Store
  TxOpen :: bool
  GroupSeq :: int
  Faults :: "bool list"
  Stdout :: "event list"

definition driverCall :: "Tx \<Rightarrow> bool \<times> Tx" where
  "driverCall tx =
     (case Faults tx of
        [] \<Rightarrow> (True, tx)
      | failed # rest \<Rightarrow> (\<not> failed, tx\<lparr>Faults := rest\<rparr>))"

text \<open>
  \<open>database.BeginTx\<close>, \<open>tx.Commit\<close> and \<open>tx.Rollback\<close>. A new transaction sees the
  committed tables. A commit makes the transaction's tables the committed ones; a commit
  that fails, and a rollback whether or not the driver reports an error for it, end the
  transaction with the committed tables as they were. On a transaction that has ended
  both return \<open>ErrTxDone\<close> without calling the driver. \<open>Rollback\<close> returns only the
  state: its one call is deferred, and the error of a deferred call is dropped.
\<close>

definition BeginTx :: "Tx \<Rightarrow> (error \<times> Tx) + Tx" where
  "BeginTx database =
     (let (ok, database') = driverCall database
      in if \<not> ok then Inl (DriverError, database')
         else Inr (database'\<lparr>TxStore := Committed database', TxOpen := True\<rparr>))"

definition Commit :: "Tx \<Rightarrow> (error \<times> Tx) + Tx" where
  "Commit tx =
     (if \<not> TxOpen tx then Inl (ErrTxDone, tx)
      else let (ok, tx') = driverCall tx
           in if \<not> ok then Inl (DriverError, tx'\<lparr>TxStore := Committed tx', TxOpen := False\<rparr>)
              else Inr (tx'\<lparr>Committed := TxStore tx', TxOpen := False\<rparr>))"

definition Rollback :: "Tx \<Rightarrow> Tx" where
  "Rollback tx =
     (if \<not> TxOpen tx then tx
      else let (ok, tx') = driverCall tx
           in tx'\<lparr>TxStore := Committed tx', TxOpen := False\<rparr>)"

text \<open>
  The statements of a record run only on the transaction that \<open>processBatch\<close> has begun
  and not yet ended, so their models do not ask whether it is open.
\<close>

definition isLiveProblem :: "int \<Rightarrow> Exercise \<Rightarrow> bool" where
  "isLiveProblem problemID e \<longleftrightarrow> MathflatProblemId e = Some problemID \<and> \<not> Deleted e"

definition getCategoryIDFromProblem :: "Tx \<Rightarrow> int \<Rightarrow> (error \<times> Tx) + (int \<times> Tx)" where
  "getCategoryIDFromProblem tx problemID =
     (let (ok, tx') = driverCall tx
      in if \<not> ok then Inl (FailedToGetCategoryID problemID DriverError, tx')
         else case find (isLiveProblem problemID) (Exercises (TxStore tx')) of
                None \<Rightarrow> Inr (0, tx')
              | Some e \<Rightarrow> Inr (CategoryID e, tx'))"

definition createExerciseGroup :: "Tx \<Rightarrow> int \<Rightarrow> (error \<times> Tx) + (int \<times> Tx)" where
  "createExerciseGroup tx categoryID =
     (let (ok, tx') = driverCall tx
      in if \<not> ok then Inl (FailedToCreateGroup DriverError, tx')
         else let st = TxStore tx'; groupID = GroupSeq tx'
              in Inr (groupID,
                      tx'\<lparr>TxStore := st\<lparr>ExerciseGroups := ExerciseGroups st @
                              [\<lparr>GroupID = groupID, GroupCategoryID = categoryID,
                                GroupDeleted = False\<rparr>]\<rparr>,
                          GroupSeq := groupID + 1\<rparr>))"

definition markGroupAsDeleted :: "Tx \<Rightarrow> int \<Rightarrow> (error \<times> Tx) + Tx" where
  "markGroupAsDeleted tx groupID =
     (let (ok, tx') = driverCall tx
      in if \<not> ok then Inl (FailedToMarkDeleted groupID DriverError, tx')
         else let st = TxStore tx'
              in Inr (tx'\<lparr>TxStore := st\<lparr>ExerciseGroups :=
                        map (\<lambda>g. if GroupID g = groupID then g\<lparr>GroupDeleted := True\<rparr> else g)
                          (ExerciseGroups st)\<rparr>\<rparr>))"

primrec updateExercisesGroup :: "Tx \<Rightarrow> int list \<Rightarrow> int \<Rightarrow> (error \<times> Tx) + Tx" where
  "updateExercisesGroup tx [] newGroupID = Inr tx"
| "updateExercisesGroup tx (problemID # rest) newGroupID =
     (let (ok, tx') = driverCall tx
      in if \<not> ok then Inl (FailedToUpdateExercise problemID DriverError, tx')
         else let st = TxStore tx'
              in updateExercisesGroup
                   (tx'\<lparr>TxStore := st\<lparr>Exercises :=
                      map (\<lambda>e. if isLiveProblem problemID e
                                then e\<lparr>ExerciseGroupID := Some newGroupID\<rparr> else e)
                        (Exercises st)\<rparr>\<rparr>)
                   rest newGroupID)"

definition inLiveGroup :: "int \<Rightarrow> Exercise \<Rightarrow> bool" where
  "inLiveGroup groupID e \<longleftrightarrow> ExerciseGroupID e = Some groupID \<and> \<not> Deleted e"

definition setRepresentativeExercise :: "Tx \<Rightarrow> int \<Rightarrow> int \<Rightarrow> (error \<times> Tx) + Tx" where
  "setRepresentativeExercise tx problemID groupID =
     (let (ok, tx1) = driverCall tx
      in if \<not> ok then Inl (FailedToClearFlags DriverError, tx1)
         else let st1 = TxStore tx1;
                  tx2 = tx1\<lparr>TxStore := st1\<lparr>Exercises :=
                          map (\<lambda>e. if inLiveGroup groupID e
                                    then e\<lparr>IsRepresentative := False\<rparr> else e)
                            (Exercises st1)\<rparr>\<rparr>;
                  (ok, tx3) = driverCall tx2
              in if \<not> ok then Inl (FailedToSetRepresentative problemID DriverError, tx3)
                 else let st3 = TxStore tx3
                      in Inr (tx3\<lparr>TxStore := st3\<lparr>Exercises :=
                                map (\<lambda>e. if MathflatProblemId e = Some problemID \<and>
                                             inLiveGroup groupID e
                                          then e\<lparr>IsRepresentative := True\<rparr> else e)
                                  (Exercises st3)\<rparr>\<rparr>))"

subsection \<open>selectBestRepresentative of the applier\<close>

text \<open>
  The applier's \<open>RepresentativeInfo\<close>, as far as the query fills it. \<open>Scan\<close> fails on
  a row whose problem id is \<open>NULL\<close>, since the target is a Go \<open>int\<close>.
\<close>

record RepresentativeRow =
  ExerciseID :: int
  RowProblemID :: int
  RowHasSolutionVideo :: bool

primrec scanRows :: "Exercise list \<Rightarrow> RepresentativeRow list \<Rightarrow> error + RepresentativeRow list" where
  "scanRows [] existingRepresentatives = Inr existingRepresentatives"
| "scanRows (e # rest) existingRepresentatives =
     (case MathflatProblemId e of
        None \<Rightarrow> Inl (FailedToScanRepresentative ScanError)
      | Some problemID \<Rightarrow>
          scanRows rest
            (existingRepresentatives @
               [\<lparr>ExerciseID = ExID e, RowProblemID = problemID,
                 RowHasSolutionVideo = (SolutionVideoID e \<noteq> None)\<rparr>]))"

definition isLiveRepresentativeOf :: "int \<Rightarrow> Exercise \<Rightarrow> bool" where
  "isLiveRepresentativeOf groupID e \<longleftrightarrow>
     ExerciseGroupID e = Some groupID \<and> IsRepresentative e \<and> \<not> Deleted e"

primrec queryRepresentatives ::
  "Tx \<Rightarrow> CrossingGroup list \<Rightarrow> RepresentativeRow list \<Rightarrow>
   (error \<times> Tx) + (RepresentativeRow list \<times> Tx)" where
  "queryRepresentatives tx [] existingRepresentatives = Inr (existingRepresentatives, tx)"
| "queryRepresentatives tx (crossing # rest) existingRepresentatives =
     (let (ok, tx') = driverCall tx
      in if \<not> ok then Inl (FailedToQueryRepresentatives DriverError, tx')
         else case scanRows (filter (isLiveRepresentativeOf (CrossingID crossing))
                               (Exercises (TxStore tx'))) existingRepresentatives of
                Inl err \<Rightarrow> Inl (err, tx')
              | Inr reps \<Rightarrow> queryRepresentatives tx' rest reps)"

primrec memberWithVideo :: "RepresentativeRow \<Rightarrow> int list \<Rightarrow> int option" where
  "memberWithVideo rep [] = None"
| "memberWithVideo rep (problemID # rest) =
     (if problemID = RowProblemID rep \<and> RowHasSolutionVideo rep then Some (RowProblemID rep)
      else memberWithVideo rep rest)"

primrec firstMemberWithVideo :: "RepresentativeRow list \<Rightarrow> int list \<Rightarrow> int option" where
  "firstMemberWithVideo [] problemIDs = None"
| "firstMemberWithVideo (rep # rest) problemIDs =
     (case memberWithVideo rep problemIDs of
        Some p \<Rightarrow> Some p
      | None \<Rightarrow> firstMemberWithVideo rest problemIDs)"

primrec memberMatch :: "RepresentativeRow \<Rightarrow> int list \<Rightarrow> int option" where
  "memberMatch rep [] = None"
| "memberMatch rep (problemID # rest) =
     (if problemID = RowProblemID rep then Some (RowProblemID rep) else memberMatch rep rest)"

primrec firstMember :: "RepresentativeRow list \<Rightarrow> int list \<Rightarrow> int option" where
  "firstMember [] problemIDs = None"
| "firstMember (rep # rest) problemIDs =
     (case memberMatch rep problemIDs of
        Some p \<Rightarrow> Some p
      | None \<Rightarrow> firstMember rest problemIDs)"

text \<open>
  The last loop asks the store for each member in turn and ignores a failed query
  (\<open>err == nil && hasVideo\<close>); \<open>sql.ErrNoRows\<close> is such a failure.
\<close>

primrec firstWithVideoInStore :: "Tx \<Rightarrow> int list \<Rightarrow> int option \<times> Tx" where
  "firstWithVideoInStore tx [] = (None, tx)"
| "firstWithVideoInStore tx (problemID # rest) =
     (let (ok, tx') = driverCall tx
      in case (if ok then find (isLiveProblem problemID) (Exercises (TxStore tx')) else None) of
           None \<Rightarrow> firstWithVideoInStore tx' rest
         | Some e \<Rightarrow>
             if SolutionVideoID e \<noteq> None then (Some problemID, tx')
             else firstWithVideoInStore tx' rest)"

definition highest :: "int list \<Rightarrow> int" where
  "highest problemIDs = (case problemIDs of [] \<Rightarrow> 0 | first # _ \<Rightarrow> highestLoop problemIDs first)"

definition selectBestRepresentativeTx ::
  "Tx \<Rightarrow> int list \<Rightarrow> CrossingGroup list \<Rightarrow> (error \<times> Tx) + (int \<times> Tx)" where
  "selectBestRepresentativeTx tx problemIDs crossingGroups =
     (if length problemIDs = 0 then Inr (0, tx)
      else if length crossingGroups = 0 then Inr (highest problemIDs, tx)
      else case queryRepresentatives tx crossingGroups [] of
             Inl err \<Rightarrow> Inl err
           | Inr (existingRepresentatives, tx1) \<Rightarrow>
               (case firstMemberWithVideo existingRepresentatives problemIDs of
                  Some p \<Rightarrow> Inr (p, tx1)
                | None \<Rightarrow>
                    (case firstMember existingRepresentatives problemIDs of
                       Some p \<Rightarrow> Inr (p, tx1)
                     | None \<Rightarrow>
                         (case firstWithVideoInStore tx1 problemIDs of
                            (Some p, tx2) \<Rightarrow> Inr (p, tx2)
                          | (None, tx2) \<Rightarrow> Inr (highest problemIDs, tx2)))))"

subsection \<open>processResult, processBatch, uploadResults\<close>

primrec categoryLoop :: "Tx \<Rightarrow> int list \<Rightarrow> (error \<times> Tx) + (int \<times> Tx)" where
  "categoryLoop tx [] = Inr (0, tx)"
| "categoryLoop tx (problemID # rest) =
     (case getCategoryIDFromProblem tx problemID of
        Inl err \<Rightarrow> Inl err
      | Inr (categoryID, tx') \<Rightarrow>
          if categoryID \<noteq> 0 then Inr (categoryID, tx') else categoryLoop tx' rest)"

primrec markLoop :: "Tx \<Rightarrow> CrossingGroup list \<Rightarrow> (error \<times> Tx) + Tx" where
  "markLoop tx [] = Inr tx"
| "markLoop tx (crossingGroup # rest) =
     (case markGroupAsDeleted tx (CrossingID crossingGroup) of
        Inl err \<Rightarrow> Inl err
      | Inr tx' \<Rightarrow> markLoop tx' rest)"

definition processResult :: "Tx \<Rightarrow> CrossingResult \<Rightarrow> (error \<times> Tx) + Tx" where
  "processResult tx result =
     (if length (ResultProblemIDs result) = 0 then Inr tx
      else case categoryLoop tx (ResultProblemIDs result) of
        Inl err \<Rightarrow> Inl err
      | Inr (categoryID, tx1) \<Rightarrow>
          if categoryID = 0
          then Inr (tx1\<lparr>Stdout := Stdout tx1 @ [WarningSkippingGroup (NewGroupID result)]\<rparr>)
          else (case createExerciseGroup tx1 categoryID of
             Inl err \<Rightarrow> Inl err
           | Inr (newGroupID, tx2) \<Rightarrow>
               (case markLoop tx2 (CrossingGroups result) of
                  Inl err \<Rightarrow> Inl err
                | Inr tx3 \<Rightarrow>
                    (case updateExercisesGroup tx3 (ResultProblemIDs result) newGroupID of
                       Inl err \<Rightarrow> Inl err
                     | Inr tx4 \<Rightarrow>
                         (case selectBestRepresentativeTx tx4 (ResultProblemIDs result)
                                 (CrossingGroups result) of
                            Inl err \<Rightarrow> Inl err
                          | Inr (representative, tx5) \<Rightarrow>
                              if representative \<noteq> 0
                              then setRepresentativeExercise tx5 representative newGroupID
                              else Inr tx5)))))"

text \<open>The loop of \<open>processBatch\<close> over the records of the chunk.\<close>

primrec processResults :: "Tx \<Rightarrow> CrossingResult list \<Rightarrow> (error \<times> Tx) + Tx" where
  "processResults tx [] = Inr tx"
| "processResults tx (result # rest) =
     (case processResult tx result of
        Inl (err, tx') \<Rightarrow> Inl (FailedToProcessResult (NewGroupID result) err, tx')
      | Inr tx' \<Rightarrow> processResults tx' rest)"

text \<open>
  \<open>defer tx.Rollback()\<close>: the rollback runs when the function returns, on every path,
  after the value to return has been computed.
\<close>

definition deferRollback :: "(error \<times> Tx) + Tx \<Rightarrow> (error \<times> Tx) + Tx" where
  "deferRollback returned =
     (case returned of
        Inl (err, tx) \<Rightarrow> Inl (err, Rollback tx)
      | Inr tx \<Rightarrow> Inr (Rollback tx))"

definition processBatch :: "Tx \<Rightarrow> CrossingResult list \<Rightarrow> (error \<times> Tx) + Tx" where
  "processBatch database batch =
     (case BeginTx database of
        Inl err \<Rightarrow> Inl err
      | Inr tx \<Rightarrow>
          deferRollback
            (case processResults tx batch of
               Inl err \<Rightarrow> Inl err
             | Inr tx' \<Rightarrow> Commit tx'))"

definition batchSize :: nat where
  "batchSize = 1000"

function uploadLoop :: "nat \<Rightarrow> Tx \<Rightarrow> CrossingResult list \<Rightarrow> error option \<times> Tx" where
  "uploadLoop i database results =
     (if i < length results
      then let end = (if i + batchSize > length results then length results else i + batchSize);
               batch = take (end - i) (drop i results)
           in case processBatch database batch of
                Inl (err, database') \<Rightarrow> (Some (FailedToProcessBatch i (end - 1) err), database')
              | Inr database' \<Rightarrow>
                  uploadLoop (i + batchSize)
                    (database'\<lparr>Stdout := Stdout database' @
                       [ProcessedBatch i (end - 1) end (length results)]\<rparr>)
                    results
      else (None, database))"
  by pat_completeness auto
termination
  by (relation "measure (\<lambda>(i, database, results). length results - i)") (auto simp: batchSize_def)

declare uploadLoop.simps [simp del]

definition uploadResults :: "Tx \<Rightarrow> CrossingResult list \<Rightarrow> error option \<times> Tx" where
  "uploadResults database results = uploadLoop 0 database results"


section \<open>What the specification says, as definitions\<close>

text \<open>
  A snapshot as \<open>loadExerciseGroups\<close> builds it: a Go map, so no key occurs twice, and
  every group is stored under its own id.
\<close>

definition keyedByID :: "(int \<times> ExerciseGroup) list \<Rightarrow> bool" where
  "keyedByID groups \<longleftrightarrow>
     distinct (map fst groups) \<and> list_all (\<lambda>kv. ID (snd kv) = fst kv) groups"

text \<open>
  The elements of \<open>E\<close> that are in \<open>G\<close>, each once, in the order of their first
  occurrence in \<open>E\<close> (\<open>remdups\<close> keeps the last occurrence, hence the two reversals).
\<close>

definition firstOccurrences :: "int list \<Rightarrow> int list \<Rightarrow> int list" where
  "firstOccurrences G E = rev (remdups (rev (filter (\<lambda>v. v \<in> set G) E)))"

text \<open>
  A crossing group is recorded correctly for the proposed grouping \<open>G\<close>: it names an
  existing group, and its intersection is the non-empty one of \<open>G\<close> with that group.
\<close>

definition recorded :: "int list \<Rightarrow> (int \<times> ExerciseGroup) list \<Rightarrow> CrossingGroup \<Rightarrow> bool" where
  "recorded G groups cg \<longleftrightarrow>
     (\<exists>E. map_of groups (CrossingID cg) = Some E \<and>
        Intersection cg = findIntersection G (ProblemIDs E) \<and> Intersection cg \<noteq> [])"

text \<open>
  What is known of the order in which Go ranges over a map: every key is visited once.
\<close>

definition visitsEachKeyOnce :: "(int list \<Rightarrow> int list) \<Rightarrow> bool" where
  "visitsEachKeyOnce mapOrder \<longleftrightarrow>
     (\<forall>ks. distinct ks \<longrightarrow> distinct (mapOrder ks) \<and> set (mapOrder ks) = set ks)"

text \<open>An existing group crosses \<open>G\<close>: it exists and \<open>findIntersection\<close> finds a common member.\<close>

definition crosses :: "int list \<Rightarrow> (int \<times> ExerciseGroup) list \<Rightarrow> int \<Rightarrow> bool" where
  "crosses G groups g =
     (case map_of groups g of
        None \<Rightarrow> False
      | Some E \<Rightarrow> findIntersection G (ProblemIDs E) \<noteq> [])"

text \<open>
  The invariant of a run of the workers over \<open>n\<close> groupings: the counter, every id a
  worker holds and every id sent on the results channel are at least the seed of the
  counter, and the counter has room for the groupings still queued or in the hands of a
  worker.
\<close>

definition heldAbove :: "int \<Rightarrow> worker_pc \<Rightarrow> bool" where
  "heldAbove seed pc =
     (case pc of BeforeIncrement newGroup crossing newGroupID \<Rightarrow> seed \<le> newGroupID | _ \<Rightarrow> True)"

definition busy :: "worker_pc \<Rightarrow> bool" where
  "busy pc =
     (case pc of BeforeLoad newGroup crossing \<Rightarrow> True
      | BeforeIncrement newGroup crossing newGroupID \<Rightarrow> True
      | _ \<Rightarrow> False)"

definition idsAbove :: "int \<Rightarrow> nat \<Rightarrow> pool \<Rightarrow> bool" where
  "idsAbove seed n p \<longleftrightarrow>
     seed \<le> nextGroupID p \<and>
     nextGroupID p + int (length (jobs p) + length (filter busy (workerPCs p))) \<le> seed + int n \<and>
     list_all (heldAbove seed) (workerPCs p) \<and>
     list_all (\<lambda>r. seed \<le> NewGroupID r) (resultsChan p)"


text \<open>
  The existing representatives of the crossed groups, in the order of the crossing
  groups, each with its has-video flag. A crossed group has a representative when its
  has-representative flag is set and its representative id is positive.
\<close>

definition crossedRepresentatives ::
  "CrossingGroup list \<Rightarrow> (int \<times> ExerciseGroup) list \<Rightarrow> (int \<times> bool) list" where
  "crossedRepresentatives crossingGroups existingGroups =
     List.map_filter
       (\<lambda>c. case map_of existingGroups (CrossingID c) of
               None \<Rightarrow> None
             | Some E \<Rightarrow>
                 if HasRepresentative E \<and> Representative E > 0
                 then Some (Representative E, RepresentativeHasVideo E) else None)
       crossingGroups"

text \<open>
  The policy over the candidates (the crossed representatives that are members of \<open>G\<close>):
  the first one with a video, else the first one, else the maximum of \<open>G\<close>.
\<close>

definition policy :: "int list \<Rightarrow> (int \<times> bool) list \<Rightarrow> int" where
  "policy G candidates =
     (case find snd candidates of
        Some r \<Rightarrow> fst r
      | None \<Rightarrow> (case candidates of r # _ \<Rightarrow> fst r | [] \<Rightarrow> Max (set G)))"

definition repPair :: "RepresentativeInfo \<Rightarrow> int \<times> bool" where
  "repPair r = (ProblemID r, HasSolutionVideo r)"

text \<open>The snapshot of the specification's first scenario: group 10 with members 1, 2, 3.\<close>

definition group10 :: ExerciseGroup where
  "group10 = \<lparr>ID = 10, ProblemIDs = [1, 2, 3], ProblemVideos = [False, False, False],
              Representative = 2, HasRepresentative = True, RepresentativeHasVideo = False\<rparr>"

definition group20 :: ExerciseGroup where
  "group20 = \<lparr>ID = 20, ProblemIDs = [4, 5], ProblemVideos = [False, True],
              Representative = 5, HasRepresentative = True, RepresentativeHasVideo = True\<rparr>"

text \<open>
  The exercises table is keyed by the external problem identifier: the live rows carry
  pairwise distinct problem ids.
\<close>

definition keyedByProblem :: "Store \<Rightarrow> bool" where
  "keyedByProblem st \<longleftrightarrow>
     distinct (List.map_filter (\<lambda>e. if Deleted e then None else MathflatProblemId e)
                 (Exercises st))"

text \<open>
  What the applier must never alter in an exercise: its id, its problem id, its category,
  its solution video and its soft-delete mark.
\<close>

definition problemContent :: "Store \<Rightarrow> (int \<times> int option \<times> int \<times> int option \<times> bool) list" where
  "problemContent st =
     map (\<lambda>e. (ExID e, MathflatProblemId e, CategoryID e, SolutionVideoID e, Deleted e))
       (Exercises st)"


text \<open>
  The four tiers of the applier's policy against the live store. The current
  representatives of the crossed groups, with their has-video flags, in the order of the
  crossing groups and of the table; whether a member problem currently has a video; and
  the choice: a crossed representative that is a member and has a video, else a crossed
  representative that is a member, else a member that has a video, else the maximum
  member id.
\<close>

definition liveRepresentatives :: "Store \<Rightarrow> CrossingGroup list \<Rightarrow> (int \<times> bool) list" where
  "liveRepresentatives st crossingGroups =
     concat (map (\<lambda>c. List.map_filter
                         (\<lambda>e. map_option (\<lambda>p. (p, SolutionVideoID e \<noteq> None)) (MathflatProblemId e))
                         (filter (isLiveRepresentativeOf (CrossingID c)) (Exercises st)))
               crossingGroups)"

definition hasVideoInStore :: "Store \<Rightarrow> int \<Rightarrow> bool" where
  "hasVideoInStore st problemID =
     (case find (isLiveProblem problemID) (Exercises st) of
        None \<Rightarrow> False
      | Some e \<Rightarrow> SolutionVideoID e \<noteq> None)"

definition policyTx :: "Store \<Rightarrow> int list \<Rightarrow> CrossingGroup list \<Rightarrow> int" where
  "policyTx st problemIDs crossingGroups =
     (let candidates = filter (\<lambda>r. fst r \<in> set problemIDs) (liveRepresentatives st crossingGroups)
      in case find snd candidates of
           Some r \<Rightarrow> fst r
         | None \<Rightarrow>
             (case candidates of
                r # _ \<Rightarrow> fst r
              | [] \<Rightarrow>
                  (case find (hasVideoInStore st) problemIDs of
                     Some p \<Rightarrow> p
                   | None \<Rightarrow> Max (set problemIDs))))"

text \<open>Every current representative of a crossed group has a problem id to scan.\<close>

definition scannable :: "Store \<Rightarrow> CrossingGroup list \<Rightarrow> bool" where
  "scannable st crossingGroups \<longleftrightarrow>
     list_all (\<lambda>c. list_all (\<lambda>e. MathflatProblemId e \<noteq> None)
                      (filter (isLiveRepresentativeOf (CrossingID c)) (Exercises st)))
       crossingGroups"

definition rowPair :: "RepresentativeRow \<Rightarrow> int \<times> bool" where
  "rowPair r = (RowProblemID r, RowHasSolutionVideo r)"

text \<open>
  What a statement of a transaction leaves alone: the committed tables, whether the
  transaction is open, and the output.
\<close>

definition outsideUnchanged :: "Tx \<Rightarrow> Tx \<Rightarrow> bool" where
  "outsideUnchanged tx tx' \<longleftrightarrow>
     Committed tx' = Committed tx \<and> TxOpen tx' = TxOpen tx \<and> Stdout tx' = Stdout tx"

text \<open>
  Example stores: live exercises of category 7; problem 1 has a solution video and
  problem 2 has none.
\<close>

definition exercise :: "int \<Rightarrow> int \<Rightarrow> int option \<Rightarrow> bool \<Rightarrow> int option \<Rightarrow> Exercise" where
  "exercise i p g r v =
     \<lparr>ExID = i, MathflatProblemId = Some p, CategoryID = 7, ExerciseGroupID = g,
      IsRepresentative = r, SolutionVideoID = v, Deleted = False\<rparr>"

definition storeA :: Store where
  "storeA = \<lparr>Exercises = [exercise 1 1 None False (Some 5), exercise 2 2 None False None],
             ExerciseGroups = []\<rparr>"

definition txA :: Tx where
  "txA = \<lparr>Committed = storeA, TxStore = storeA, TxOpen = False, GroupSeq = 100,
          Faults = [], Stdout = []\<rparr>"

definition recordA :: CrossingResult where
  "recordA = \<lparr>NewGroupID = 11, BaseGroupID = 0, ResultProblemIDs = [1, 2], CrossingGroups = [],
              ResultRepresentative = 2, SelectionReason = NoCrossingHighest\<rparr>"

definition recordB :: CrossingResult where
  "recordB = \<lparr>NewGroupID = 12, BaseGroupID = 0, ResultProblemIDs = [2], CrossingGroups = [],
              ResultRepresentative = 2, SelectionReason = NoCrossingHighest\<rparr>"

definition recordGone :: CrossingResult where
  "recordGone = \<lparr>NewGroupID = 13, BaseGroupID = 0, ResultProblemIDs = [8, 9],
                 CrossingGroups = [], ResultRepresentative = 9,
                 SelectionReason = NoCrossingHighest\<rparr>"

definition recordEmpty :: CrossingResult where
  "recordEmpty = \<lparr>NewGroupID = 14, BaseGroupID = 0, ResultProblemIDs = [], CrossingGroups = [],
                  ResultRepresentative = 0, SelectionReason = EmptyGroup\<rparr>"

text \<open>
  The twelfth call of the driver fails. In the chunk of \<open>recordGone\<close>, \<open>recordA\<close> and
  \<open>recordB\<close> that is the \<open>UPDATE\<close> of \<open>recordB\<close>: the calls before it are \<open>BeginTx\<close>, the
  two category queries of \<open>recordGone\<close>, the six statements of \<open>recordA\<close>, and the
  category query and the \<open>INSERT\<close> of \<open>recordB\<close>.
\<close>

definition txF :: Tx where
  "txF = txA\<lparr>Faults := [False, False, False, False, False, False, False, False, False,
                          False, False, True]\<rparr>"

text \<open>The transaction begun on \<open>txF\<close>.\<close>

definition txBegun :: Tx where
  "txBegun = txA\<lparr>TxOpen := True,
                  Faults := [False, False, False, False, False, False, False, False,
                             False, False, True]\<rparr>"

text \<open>The transaction of \<open>txF\<close> after \<open>recordGone\<close> and \<open>recordA\<close> have been applied in it.\<close>

definition txK :: Tx where
  "txK = \<lparr>Committed = storeA,
          TxStore =
            \<lparr>Exercises = [exercise 1 1 (Some 100) False (Some 5), exercise 2 2 (Some 100) True None],
             ExerciseGroups = [\<lparr>GroupID = 100, GroupCategoryID = 7, GroupDeleted = False\<rparr>]\<rparr>,
          TxOpen = True, GroupSeq = 101, Faults = [False, False, True],
          Stdout = [WarningSkippingGroup 13]\<rparr>"

text \<open>That transaction when the \<open>UPDATE\<close> of \<open>recordB\<close> has failed in it.\<close>

definition txFailed :: Tx where
  "txFailed = \<lparr>Committed = storeA,
          TxStore =
            \<lparr>Exercises = [exercise 1 1 (Some 100) False (Some 5), exercise 2 2 (Some 100) True None],
             ExerciseGroups = [\<lparr>GroupID = 100, GroupCategoryID = 7, GroupDeleted = False\<rparr>,
                               \<lparr>GroupID = 101, GroupCategoryID = 7, GroupDeleted = False\<rparr>]\<rparr>,
          TxOpen = True, GroupSeq = 102, Faults = [],
          Stdout = [WarningSkippingGroup 13]\<rparr>"

text \<open>
  Group 10 holds problems 1 (its representative, no video) and 2 (with a video); group 20
  holds problem 3, its representative, with a video.
\<close>

definition storeB :: Store where
  "storeB = \<lparr>Exercises = [exercise 1 1 (Some 10) True None, exercise 2 2 (Some 10) False (Some 5),
                          exercise 3 3 (Some 20) True (Some 6)],
             ExerciseGroups = [\<lparr>GroupID = 10, GroupCategoryID = 7, GroupDeleted = False\<rparr>,
                               \<lparr>GroupID = 20, GroupCategoryID = 7, GroupDeleted = False\<rparr>]\<rparr>"

definition txB :: Tx where
  "txB = \<lparr>Committed = storeB, TxStore = storeB, TxOpen = False, GroupSeq = 100,
          Faults = [], Stdout = []\<rparr>"

text \<open>The record of a grouping of problems 1 and 2 that crosses group 10.\<close>

definition recordCrossing :: CrossingResult where
  "recordCrossing =
     \<lparr>NewGroupID = 21, BaseGroupID = 10, ResultProblemIDs = [1, 2],
      CrossingGroups = [\<lparr>CrossingID = 10, Intersection = [1, 2]\<rparr>],
      ResultRepresentative = 1, SelectionReason = ExistingInNewGroup\<rparr>"





text \<open>The database after the chunk of \<open>recordA\<close> and \<open>recordB\<close> has been committed on \<open>txA\<close>.\<close>

definition storeDone :: Store where
  "storeDone = \<lparr>Exercises = [exercise 1 1 (Some 100) False (Some 5),
                             exercise 2 2 (Some 101) True None],
                ExerciseGroups = [\<lparr>GroupID = 100, GroupCategoryID = 7, GroupDeleted = False\<rparr>,
                                  \<lparr>GroupID = 101, GroupCategoryID = 7, GroupDeleted = False\<rparr>]\<rparr>"

definition txDone :: Tx where
  "txDone = \<lparr>Committed = storeDone, TxStore = storeDone, TxOpen = False, GroupSeq = 102,
             Faults = [], Stdout = []\<rparr>"

section \<open>Theorems about the resolver\<close>

subsection \<open>findIntersection\<close>

lemma remdups_snoc: "remdups (xs @ [v]) = filter (\<lambda>x. x \<noteq> v) (remdups xs) @ [v]"
  by (induction xs) auto

lemma firstOcc_Cons:
  "rev (remdups (rev (v # ys))) = v # rev (remdups (rev (filter (\<lambda>x. x \<noteq> v) ys)))"
  by (simp add: remdups_snoc rev_filter remdups_filter)

lemma intersectLoop_eq:
  "intersectLoop G E seen acc =
     acc @ rev (remdups (rev (filter (\<lambda>v. v \<in> set G \<and> v \<notin> set seen) E)))"
proof (induction E arbitrary: seen acc)
  case Nil
  then show ?case by simp
next
  case (Cons v rest)
  have f: "filter (\<lambda>x. x \<noteq> v) (filter (\<lambda>x. x \<in> set G \<and> x \<notin> set seen) rest)
         = filter (\<lambda>x. x \<in> set G \<and> x \<notin> set (v # seen)) rest"
    by (induction rest) auto
  show ?case
  proof (cases "v \<in> set G \<and> v \<notin> set seen")
    case True
    then show ?thesis
      using Cons.IH [of "v # seen" "acc @ [v]"] firstOcc_Cons [of v] f by simp
  next
    case False
    then show ?thesis using Cons.IH [of seen acc] by auto
  qed
qed

lemma findIntersection_eq: "findIntersection G E = firstOccurrences G E"
  by (simp add: findIntersection_def intersectLoop_eq firstOccurrences_def)

lemma crossingLoop_recorded:
  "list_all (recorded G groups) (fst acc) \<Longrightarrow>
   list_all (recorded G groups) (fst (crossingLoop ids G groups acc))"
proof (induction ids arbitrary: acc)
  case Nil
  then show ?case by simp
next
  case (Cons groupID rest)
  show ?case
  proof (cases "map_of groups groupID")
    case None
    then show ?thesis using Cons.IH [OF Cons.prems] by simp
  next
    case (Some E)
    show ?thesis
    proof (cases "findIntersection G (ProblemIDs E) = []")
      case True
      then show ?thesis using Some Cons.IH [OF Cons.prems] by simp
    next
      case False
      let ?acc = "(fst acc @ [\<lparr>CrossingID = groupID, Intersection = findIntersection G (ProblemIDs E)\<rparr>],
                   if groupID > snd acc then groupID else snd acc)"
      have "recorded G groups \<lparr>CrossingID = groupID, Intersection = findIntersection G (ProblemIDs E)\<rparr>"
        using Some False by (simp add: recorded_def)
      then have "list_all (recorded G groups) (fst ?acc)"
        using Cons.prems by simp
      from Cons.IH [OF this] show ?thesis using Some False by (simp add: Let_def)
    qed
  qed
qed

lemma processGroup_recorded:
  "list_all (recorded G groups) (CrossingGroups (fst (processGroup mapOrder G idx groups n)))"
  using crossingLoop_recorded [of G groups "([], 0)" "mapOrder (relatedLoop G idx [])"]
  by (simp add: processGroup_def makeResult_def findCrossingGroups_def Let_def)

text \<open>
  Claim C6. For every proposed grouping \<open>G\<close> and member list \<open>E\<close> of an existing group,
  \<open>findIntersection G E\<close> is the set intersection of \<open>G\<close> and \<open>E\<close> as a set, has no
  duplicate, and lists its elements in the order of their first occurrence in \<open>E\<close>. Every
  crossing group that \<open>processGroup\<close> records for \<open>G\<close> names an existing group and
  carries this intersection with the group's members, which is not empty.
\<close>

theorem findIntersection_is_intersection:
  "set (findIntersection G E) = set G \<inter> set E \<and>
   distinct (findIntersection G E) \<and>
   findIntersection G E = firstOccurrences G E \<and>
   (\<forall>cg \<in> set (CrossingGroups (fst (processGroup mapOrder G idx groups n))). recorded G groups cg)"
proof -
  have "set (findIntersection G E) = set G \<inter> set E"
    by (auto simp: findIntersection_eq firstOccurrences_def)
  moreover have "distinct (findIntersection G E)"
    by (simp add: findIntersection_eq firstOccurrences_def)
  moreover have "\<forall>cg \<in> set (CrossingGroups (fst (processGroup mapOrder G idx groups n))). recorded G groups cg"
    using processGroup_recorded [of G groups mapOrder idx n] by (simp add: list_all_iff)
  ultimately show ?thesis using findIntersection_eq by blast
qed

theorem findIntersection_is_intersection_witness:
  "findIntersection [2, 3, 4] [1, 2, 3, 2] = [2, 3] \<and>
   CrossingGroups (fst (processGroup rev [2, 3, 4] (buildProblemIndex [(10, group10)]) [(10, group10)] 11))
     = [\<lparr>CrossingID = 10, Intersection = [2, 3]\<rparr>] \<and>
   recorded [2, 3, 4] [(10, group10)] \<lparr>CrossingID = 10, Intersection = [2, 3]\<rparr>"
proof -
  have c: "CrossingGroups (fst (processGroup rev [2, 3, 4] (buildProblemIndex [(10, group10)]) [(10, group10)] 11))
     = [\<lparr>CrossingID = 10, Intersection = [2, 3]\<rparr>]"
    by code_simp
  have f: "firstOccurrences [2, 3, 4] [1, 2, 3, 2] = [2, 3]"
    by code_simp
  show ?thesis
    using findIntersection_is_intersection
      [of "[2, 3, 4]" "[1, 2, 3, 2]" rev "buildProblemIndex [(10, group10)]" "[(10, group10)]" 11]
    by (simp add: c f)
qed


subsection \<open>buildProblemIndex\<close>

lemma indexAt_empty: "indexAt Map.empty p = []"
  by (simp add: indexAt_def)

lemma indexAt_indexProblems:
  "set (indexAt (indexProblems gid ps index) p) =
     set (indexAt index p) \<union> (if p \<in> set ps then {gid} else {})"
  by (induction ps arbitrary: index) (auto simp: indexAt_def)

lemma indexAt_indexGroups:
  "set (indexAt (indexGroups groups index) p) =
     set (indexAt index p) \<union>
     set (map (\<lambda>kv. ID (snd kv)) (filter (\<lambda>kv. p \<in> set (ProblemIDs (snd kv))) groups))"
  by (induction groups arbitrary: index) (auto simp: indexAt_indexProblems)

lemma indexAt_buildProblemIndex:
  "set (indexAt (buildProblemIndex groups) p) =
     set (map (\<lambda>kv. ID (snd kv)) (filter (\<lambda>kv. p \<in> set (ProblemIDs (snd kv))) groups))"
  by (simp add: buildProblemIndex_def indexAt_indexGroups indexAt_empty)

text \<open>
  Claim C7. For a snapshot keyed by group id (a Go map in which every group is stored
  under its own id, as the loader builds it), group id \<open>g\<close> appears in the index entry
  of problem \<open>p\<close> if and only if the snapshot has a group with id \<open>g\<close> and \<open>p\<close> is one of
  its members. A problem with no entry has the empty entry.
\<close>

theorem buildProblemIndex_iff:
  assumes "keyedByID groups"
  shows "g \<in> set (indexAt (buildProblemIndex groups) p) \<longleftrightarrow>
         (\<exists>E. map_of groups g = Some E \<and> p \<in> set (ProblemIDs E))"
proof
  assume "g \<in> set (indexAt (buildProblemIndex groups) p)"
  then obtain kv where kv: "kv \<in> set groups" "ID (snd kv) = g" "p \<in> set (ProblemIDs (snd kv))"
    by (auto simp: indexAt_buildProblemIndex)
  from assms kv have "fst kv = g" by (auto simp: keyedByID_def list_all_iff)
  with kv have "(g, snd kv) \<in> set groups" by (metis prod.collapse)
  with assms have "map_of groups g = Some (snd kv)"
    by (simp add: keyedByID_def)
  with kv show "\<exists>E. map_of groups g = Some E \<and> p \<in> set (ProblemIDs E)" by blast
next
  assume "\<exists>E. map_of groups g = Some E \<and> p \<in> set (ProblemIDs E)"
  then obtain E where E: "map_of groups g = Some E" "p \<in> set (ProblemIDs E)" by blast
  then have m: "(g, E) \<in> set groups" by (simp add: map_of_SomeD)
  with assms have "ID E = g" by (auto simp: keyedByID_def list_all_iff)
  with m E show "g \<in> set (indexAt (buildProblemIndex groups) p)"
    by (force simp: indexAt_buildProblemIndex)
qed

theorem buildProblemIndex_iff_witness:
  "keyedByID [(10, group10), (20, group20)] \<and>
   10 \<in> set (indexAt (buildProblemIndex [(10, group10), (20, group20)]) 2) \<and>
   20 \<notin> set (indexAt (buildProblemIndex [(10, group10), (20, group20)]) 2) \<and>
   indexAt (buildProblemIndex [(10, group10), (20, group20)]) 7 = []"
proof -
  have k: "keyedByID [(10, group10), (20, group20)]"
    by (simp add: keyedByID_def group10_def group20_def)
  have e: "indexAt (buildProblemIndex [(10, group10), (20, group20)]) 7 = []"
    by code_simp
  show ?thesis
    using buildProblemIndex_iff [OF k, of 10 2] buildProblemIndex_iff [OF k, of 20 2] k e
    by (simp add: group10_def group20_def)
qed

subsection \<open>The crossing groups of processGroup\<close>

lemma addRelated_props:
  "distinct related \<Longrightarrow>
   distinct (addRelated gs related) \<and> set (addRelated gs related) = set related \<union> set gs"
  by (induction gs arbitrary: related) auto

lemma relatedLoop_props:
  "distinct related \<Longrightarrow>
   distinct (relatedLoop G idx related) \<and>
   set (relatedLoop G idx related) = set related \<union> (\<Union>p \<in> set G. set (indexAt idx p))"
proof (induction G arbitrary: related)
  case Nil
  then show ?case by simp
next
  case (Cons p G)
  show ?case
  proof (cases "idx p")
    case None
    then show ?thesis using Cons.IH [OF Cons.prems] by (simp add: indexAt_def)
  next
    case (Some gs)
    from addRelated_props [OF Cons.prems, of gs]
    have d: "distinct (addRelated gs related)"
      and s: "set (addRelated gs related) = set related \<union> set gs" by simp_all
    from Cons.IH [OF d] show ?thesis using Some s by (auto simp: indexAt_def)
  qed
qed

lemma crossingLoop_ids:
  "map CrossingID (fst (crossingLoop ids G groups acc)) =
     map CrossingID (fst acc) @ filter (crosses G groups) ids"
proof (induction ids arbitrary: acc)
  case Nil
  then show ?case by simp
next
  case (Cons g ids)
  show ?case
    by (cases "map_of groups g") (simp_all add: Cons.IH crosses_def Let_def)
qed

lemma crossingLoop_fold:
  "snd (crossingLoop ids G groups acc) = fold max (filter (crosses G groups) ids) (snd acc)"
proof (induction ids arbitrary: acc)
  case Nil
  then show ?case by simp
next
  case (Cons g ids)
  show ?case
  proof (cases "map_of groups g")
    case None
    then show ?thesis by (simp add: Cons.IH crosses_def)
  next
    case (Some E)
    show ?thesis
    proof (cases "findIntersection G (ProblemIDs E) = []")
      case True
      then show ?thesis using Some by (simp add: Cons.IH crosses_def)
    next
      case False
      have "(if snd acc < g then g else snd acc) = max g (snd acc)"
        by (simp add: max_def)
      then show ?thesis using Some False by (simp add: Cons.IH crosses_def Let_def)
    qed
  qed
qed

lemma crossingLoop_base:
  "snd (crossingLoop ids G groups acc) =
     Max (insert (snd acc) (set (filter (crosses G groups) ids)))"
  using Max.set_eq_fold [of "snd acc" "filter (crosses G groups) ids"]
  by (simp add: crossingLoop_fold)

lemma findIntersection_set: "set (findIntersection G E) = set G \<inter> set E"
  by (auto simp: findIntersection_eq firstOccurrences_def)

lemma crosses_iff:
  "crosses G groups g \<longleftrightarrow>
     (\<exists>E. map_of groups g = Some E \<and> set G \<inter> set (ProblemIDs E) \<noteq> {})"
proof (cases "map_of groups g")
  case None
  then show ?thesis by (simp add: crosses_def)
next
  case (Some E)
  have "findIntersection G (ProblemIDs E) \<noteq> [] \<longleftrightarrow> set G \<inter> set (ProblemIDs E) \<noteq> {}"
    using findIntersection_set [of G "ProblemIDs E"] by (metis set_empty)
  then show ?thesis using Some by (simp add: crosses_def)
qed

lemma related_iff:
  assumes "keyedByID groups"
  shows "g \<in> set (relatedLoop G (buildProblemIndex groups) []) \<longleftrightarrow> crosses G groups g"
proof -
  have "g \<in> set (relatedLoop G (buildProblemIndex groups) []) \<longleftrightarrow>
        (\<exists>p \<in> set G. g \<in> set (indexAt (buildProblemIndex groups) p))"
    using relatedLoop_props [of "[]" G "buildProblemIndex groups"] by simp
  also have "\<dots> \<longleftrightarrow> (\<exists>p \<in> set G. \<exists>kv \<in> set groups. ID (snd kv) = g \<and> p \<in> set (ProblemIDs (snd kv)))"
    by (auto simp: indexAt_buildProblemIndex)
  also have "\<dots> \<longleftrightarrow> (\<exists>E. map_of groups g = Some E \<and> set G \<inter> set (ProblemIDs E) \<noteq> {})"
  proof
    assume "\<exists>p \<in> set G. \<exists>kv \<in> set groups. ID (snd kv) = g \<and> p \<in> set (ProblemIDs (snd kv))"
    then obtain p kv where h: "p \<in> set G" "kv \<in> set groups" "ID (snd kv) = g"
        "p \<in> set (ProblemIDs (snd kv))" by blast
    from assms h have "fst kv = g" by (auto simp: keyedByID_def list_all_iff)
    with h have "(g, snd kv) \<in> set groups" by (metis prod.collapse)
    with assms have "map_of groups g = Some (snd kv)" by (simp add: keyedByID_def)
    with h show "\<exists>E. map_of groups g = Some E \<and> set G \<inter> set (ProblemIDs E) \<noteq> {}" by auto
  next
    assume "\<exists>E. map_of groups g = Some E \<and> set G \<inter> set (ProblemIDs E) \<noteq> {}"
    then obtain E p where h: "map_of groups g = Some E" "p \<in> set G" "p \<in> set (ProblemIDs E)"
      by auto
    then have m: "(g, E) \<in> set groups" by (simp add: map_of_SomeD)
    with assms have "ID E = g" by (auto simp: keyedByID_def list_all_iff)
    with m h show "\<exists>p \<in> set G. \<exists>kv \<in> set groups. ID (snd kv) = g \<and> p \<in> set (ProblemIDs (snd kv))"
      by force
  qed
  finally show ?thesis by (simp add: crosses_iff)
qed

text \<open>
  For a snapshot keyed by group id and the index built from it, \<open>processGroup\<close> records
  one crossing group for each existing group that shares a member with \<open>G\<close> and for no
  other id, and the base group id is the highest crossed id, 0 if there is none.
\<close>

theorem processGroup_crossings_complete:
  assumes "keyedByID groups" and "visitsEachKeyOnce mapOrder"
  shows "distinct (map CrossingID (CrossingGroups
           (fst (processGroup mapOrder G (buildProblemIndex groups) groups n)))) \<and>
         set (map CrossingID (CrossingGroups
           (fst (processGroup mapOrder G (buildProblemIndex groups) groups n)))) =
           {g. \<exists>E. map_of groups g = Some E \<and> set G \<inter> set (ProblemIDs E) \<noteq> {}} \<and>
         BaseGroupID (fst (processGroup mapOrder G (buildProblemIndex groups) groups n)) =
           Max (insert 0 (set (map CrossingID
             (CrossingGroups (fst (processGroup mapOrder G (buildProblemIndex groups) groups n))))))"
proof -
  let ?rel = "relatedLoop G (buildProblemIndex groups) []"
  let ?ord = "mapOrder ?rel"
  have d0: "distinct ?rel" using relatedLoop_props [of "[]" G "buildProblemIndex groups"] by simp
  with assms(2) have d: "distinct ?ord" and e: "set ?ord = set ?rel"
    by (simp_all add: visitsEachKeyOnce_def)
  have f: "filter (crosses G groups) ?ord = ?ord"
    using related_iff [OF assms(1)] e by (simp add: filter_id_conv)
  have ids: "map CrossingID (CrossingGroups
               (fst (processGroup mapOrder G (buildProblemIndex groups) groups n))) = ?ord"
    using crossingLoop_ids [of ?ord G groups "([], 0)"] f
    by (simp add: processGroup_def makeResult_def findCrossingGroups_def Let_def)
  have base: "BaseGroupID (fst (processGroup mapOrder G (buildProblemIndex groups) groups n)) =
              Max (insert 0 (set ?ord))"
    using crossingLoop_base [of ?ord G groups "([], 0)"] f
    by (simp add: processGroup_def makeResult_def findCrossingGroups_def Let_def)
  have s: "set ?ord = {g. \<exists>E. map_of groups g = Some E \<and> set G \<inter> set (ProblemIDs E) \<noteq> {}}"
    using related_iff [OF assms(1)] e by (auto simp: crosses_iff)
  show ?thesis unfolding ids base using d s by simp
qed

theorem processGroup_crossings_complete_witness:
  "keyedByID [(10, group10), (20, group20)] \<and> visitsEachKeyOnce rev \<and>
   map CrossingID (CrossingGroups (fst (processGroup rev [2, 4, 9]
      (buildProblemIndex [(10, group10), (20, group20)]) [(10, group10), (20, group20)] 21)))
     = [20, 10] \<and>
   BaseGroupID (fst (processGroup rev [2, 4, 9]
      (buildProblemIndex [(10, group10), (20, group20)]) [(10, group10), (20, group20)] 21)) = 20"
proof -
  have k: "keyedByID [(10, group10), (20, group20)]"
    by (simp add: keyedByID_def group10_def group20_def)
  have v: "visitsEachKeyOnce rev" by (simp add: visitsEachKeyOnce_def)
  have c: "map CrossingID (CrossingGroups (fst (processGroup rev [2, 4, 9]
      (buildProblemIndex [(10, group10), (20, group20)]) [(10, group10), (20, group20)] 21)))
     = [20, 10]"
    by code_simp
  from processGroup_crossings_complete [OF k v, of "[2, 4, 9]" 21] k v c show ?thesis
    by simp
qed

subsection \<open>Representative selection\<close>

lemma collectRepresentatives_eq:
  "map repPair (collectRepresentatives cgs groups acc) =
     map repPair acc @ crossedRepresentatives cgs groups"
  by (induction cgs arbitrary: acc)
     (auto simp: crossedRepresentatives_def repPair_def split: option.splits)

lemma matchInGroup_eq:
  "matchInGroup rep G acc = acc @ replicate (count_list G (ProblemID rep)) rep"
  by (induction G arbitrary: acc) (auto simp: replicate_app_Cons_same)

lemma collectCandidates_eq:
  "collectCandidates reps G acc =
     acc @ concat (map (\<lambda>r. replicate (count_list G (ProblemID r)) r) reps)"
  by (induction reps arbitrary: acc) (auto simp: matchInGroup_eq)

lemma firstWithVideo_append:
  "firstWithVideo (xs @ ys) =
     (case firstWithVideo xs of Some p \<Rightarrow> Some p | None \<Rightarrow> firstWithVideo ys)"
  by (induction xs) auto

lemma firstWithVideo_replicate:
  "firstWithVideo (replicate n r) =
     (if 0 < n \<and> HasSolutionVideo r then Some (ProblemID r) else None)"
  by (induction n) auto

lemma count_pos: "0 < count_list G x \<longleftrightarrow> x \<in> set G"
  using count_list_0_iff [of G x] by auto

lemma firstWithVideo_candidates:
  "firstWithVideo (concat (map (\<lambda>r. replicate (count_list G (ProblemID r)) r) reps)) =
     map_option fst (find snd (filter (\<lambda>r. fst r \<in> set G) (map repPair reps)))"
  by (induction reps)
     (auto simp: firstWithVideo_append firstWithVideo_replicate count_pos repPair_def
           split: option.splits)

lemma candidates_Nil:
  "concat (map (\<lambda>r. replicate (count_list G (ProblemID r)) r) reps) = [] \<longleftrightarrow>
     filter (\<lambda>r. fst r \<in> set G) (map repPair reps) = []"
  by (induction reps) (auto simp: repPair_def count_list_0_iff)

lemma candidates_hd:
  "concat (map (\<lambda>r. replicate (count_list G (ProblemID r)) r) reps) = c # cs \<Longrightarrow>
     \<exists>rs. filter (\<lambda>r. fst r \<in> set G) (map repPair reps) = repPair c # rs"
proof (induction reps)
  case Nil
  then show ?case by simp
next
  case (Cons r reps)
  show ?case
  proof (cases "ProblemID r \<in> set G")
    case True
    then obtain n where "count_list G (ProblemID r) = Suc n"
      using count_pos [of G "ProblemID r"] by (cases "count_list G (ProblemID r)") auto
    with Cons.prems True show ?thesis by (simp add: repPair_def)
  next
    case False
    then have "count_list G (ProblemID r) = 0"
      by simp
    with Cons False show ?thesis by (simp add: repPair_def)
  qed
qed

lemma highestLoop_Max: "highestLoop xs h = Max (insert h (set xs))"
proof (induction xs arbitrary: h)
  case Nil
  then show ?case by simp
next
  case (Cons x xs)
  have "Max (insert (max x h) (set xs)) = Max (insert h (insert x (set xs)))"
  proof (cases "xs = []")
    case True
    then show ?thesis by (simp add: max.commute)
  next
    case False
    then show ?thesis by (simp add: max.assoc max.commute max.left_commute)
  qed
  then show ?case using Cons.IH [of "if h < x then x else h"]
    by (simp add: max_def split: if_splits)
qed

lemma selectBestFromNewGroup_Max:
  "G \<noteq> [] \<Longrightarrow> fst (selectBestFromNewGroup G cgs reps) = Max (set G)"
  by (cases G) (simp_all add: selectBestFromNewGroup_def highestLoop_Max insert_absorb)

text \<open>
  Claim C3. For every non-empty proposed grouping \<open>G\<close>, the resolver's
  \<open>selectBestRepresentative\<close> returns what the policy says over the candidates, the
  existing representatives of the crossed groups (has-representative flag set, positive
  representative id) whose problem id is a member of \<open>G\<close>, taken in the order of the
  crossing groups: the first candidate with a video if one has a video, otherwise the
  first candidate, and the maximum problem id of \<open>G\<close> when there is no candidate (no
  crossing, no crossed group with a representative, or none of them a member of \<open>G\<close>).
\<close>

theorem selectBestRepresentative_policy:
  assumes "G \<noteq> []"
  shows "fst (selectBestRepresentative G cgs groups) =
         policy G (filter (\<lambda>r. fst r \<in> set G) (crossedRepresentatives cgs groups))"
proof -
  let ?reps = "collectRepresentatives cgs groups []"
  let ?cands = "collectCandidates ?reps G []"
  let ?spec = "filter (\<lambda>r. fst r \<in> set G) (crossedRepresentatives cgs groups)"
  have reps: "map repPair ?reps = crossedRepresentatives cgs groups"
    using collectRepresentatives_eq [of cgs groups "[]"] by simp
  have cands: "?cands = concat (map (\<lambda>r. replicate (count_list G (ProblemID r)) r) ?reps)"
    by (simp add: collectCandidates_eq)
  have fv: "firstWithVideo ?cands = map_option fst (find snd ?spec)"
    unfolding cands firstWithVideo_candidates reps ..
  show ?thesis
  proof (cases ?cands)
    case Nil
    then have "?spec = []" using candidates_Nil [of G ?reps] cands reps by simp
    then show ?thesis using Nil assms
      by (simp add: selectBestRepresentative_def selectBestFromNewGroup_Max policy_def Let_def)
  next
    case (Cons c cs)
    then obtain rs where rs: "?spec = repPair c # rs"
      using candidates_hd [of G ?reps c cs] cands reps by auto
    show ?thesis
      using Cons fv rs assms
      by (simp add: selectBestRepresentative_def policy_def Let_def repPair_def
               split: option.splits)
  qed
qed

theorem selectBestRepresentative_policy_witness:
  "[2, 5] \<noteq> ([] :: int list) \<and>
   fst (selectBestRepresentative [2, 5]
          [\<lparr>CrossingID = 10, Intersection = [2]\<rparr>, \<lparr>CrossingID = 20, Intersection = [5]\<rparr>]
          [(10, group10), (20, group20)]) = 5 \<and>
   fst (selectBestRepresentative [2, 4]
          [\<lparr>CrossingID = 10, Intersection = [2]\<rparr>, \<lparr>CrossingID = 20, Intersection = [4]\<rparr>]
          [(10, group10), (20, group20)]) = 2 \<and>
   fst (selectBestRepresentative [6, 9, 7] [] [(10, group10), (20, group20)]) = 9"
proof -
  have a: "policy [2, 5] (filter (\<lambda>r. fst r \<in> set [2, 5])
             (crossedRepresentatives
                [\<lparr>CrossingID = 10, Intersection = [2]\<rparr>, \<lparr>CrossingID = 20, Intersection = [5]\<rparr>]
                [(10, group10), (20, group20)])) = 5"
    by (simp add: policy_def crossedRepresentatives_def group10_def group20_def)
  have b: "policy [2, 4] (filter (\<lambda>r. fst r \<in> set [2, 4])
             (crossedRepresentatives
                [\<lparr>CrossingID = 10, Intersection = [2]\<rparr>, \<lparr>CrossingID = 20, Intersection = [4]\<rparr>]
                [(10, group10), (20, group20)])) = 2"
    by (simp add: policy_def crossedRepresentatives_def group10_def group20_def)
  have c: "policy [6, 9, 7] (filter (\<lambda>r. fst r \<in> set [6, 9, 7])
             (crossedRepresentatives [] [(10, group10), (20, group20)])) = 9"
    by (simp add: policy_def crossedRepresentatives_def)
  have n1: "[2, 5] \<noteq> ([] :: int list)" and n2: "[2, 4] \<noteq> ([] :: int list)"
    and n3: "[6, 9, 7] \<noteq> ([] :: int list)"
    by simp_all
  show ?thesis
    by (simp only: selectBestRepresentative_policy [OF n1] selectBestRepresentative_policy [OF n2]
          selectBestRepresentative_policy [OF n3] a b c n1 simp_thms)
qed


subsection \<open>loadExerciseGroups\<close>


lemma update_keyed:
  "keyedByID groups \<Longrightarrow> ID g = k \<Longrightarrow> keyedByID (AList.update k g groups)"
proof -
  assume a: "keyedByID groups" "ID g = k"
  have "list_all (\<lambda>kv. ID (snd kv) = fst kv) groups \<Longrightarrow>
        list_all (\<lambda>kv. ID (snd kv) = fst kv) (AList.update k g groups)"
    using a(2) by (induction groups) auto
  with a show ?thesis by (simp add: keyedByID_def distinct_update)
qed

lemma loadRows_keyed:
  "keyedByID groups \<Longrightarrow> loadRows reads groups = Inr groups' \<Longrightarrow> keyedByID groups'"
proof (induction reads groups rule: loadRows.induct)
  case (1 groups)
  then show ?case by simp
next
  case (2 err rest groups)
  then show ?case by simp
next
  case (3 row rest groups)
  show ?case
  proof (cases "snd (Atoi (row ! 0))")
    case False
    with 3 show ?thesis by (auto split: if_splits)
  next
    case True
    have "keyedByID (AList.update (fst (Atoi (row ! 0))) (rowGroup (fst (Atoi (row ! 0))) row) groups)"
      using "3.prems"(1) by (rule update_keyed) (simp add: rowGroup_def)
    with 3 True show ?thesis by (auto split: if_splits)
  qed
qed

text \<open>
  The snapshot the loader returns is keyed by group id: no key twice, every group under
  its own id.
\<close>

theorem loadExerciseGroups_keyed:
  "loadExerciseGroups reads = Inr groups \<Longrightarrow> keyedByID groups"
proof -
  have e: "keyedByID []" by (simp add: keyedByID_def)
  assume "loadExerciseGroups reads = Inr groups"
  then show ?thesis
    using loadRows_keyed [OF e]
    by (auto simp: loadExerciseGroups_def split: list.splits sum.splits)
qed

theorem loadExerciseGroups_keyed_witness:
  "loadExerciseGroups
     [Inr [''id'', ''members''], Inr [''10'', ''1,2''], Inr [''20'', ''4''], Inr [''10'', ''3'']] =
     Inr [(10, \<lparr>ID = 10, ProblemIDs = [3], ProblemVideos = [], Representative = 0,
                HasRepresentative = False, RepresentativeHasVideo = False\<rparr>),
          (20, \<lparr>ID = 20, ProblemIDs = [4], ProblemVideos = [], Representative = 0,
                HasRepresentative = False, RepresentativeHasVideo = False\<rparr>)] \<and>
   keyedByID
     [(10, \<lparr>ID = 10, ProblemIDs = [3], ProblemVideos = [], Representative = 0,
            HasRepresentative = False, RepresentativeHasVideo = False\<rparr>),
      (20, \<lparr>ID = 20, ProblemIDs = [4], ProblemVideos = [], Representative = 0,
            HasRepresentative = False, RepresentativeHasVideo = False\<rparr>)]"
proof -
  have l: "loadExerciseGroups
     [Inr [''id'', ''members''], Inr [''10'', ''1,2''], Inr [''20'', ''4''], Inr [''10'', ''3'']] =
     Inr [(10, \<lparr>ID = 10, ProblemIDs = [3], ProblemVideos = [], Representative = 0,
                HasRepresentative = False, RepresentativeHasVideo = False\<rparr>),
          (20, \<lparr>ID = 20, ProblemIDs = [4], ProblemVideos = [], Representative = 0,
                HasRepresentative = False, RepresentativeHasVideo = False\<rparr>)]"
    by code_simp
  from loadExerciseGroups_keyed [OF l] l show ?thesis by simp
qed




subsection \<open>processGroups\<close>

text \<open>
  Claim C1. The new group ids of a run are not pairwise distinct under every schedule:
  with the snapshot of group 10 and the proposed groupings \<open>[2, 3, 4]\<close> and \<open>[7]\<close>,
  workers 0 and 1 each receive one grouping and both execute
  \<open>newGroupID := *nextGroupID\<close> before either executes \<open>*nextGroupID++\<close>; every worker
  then returns, and both records carry the id 11.
\<close>

theorem processGroups_duplicate_ids:
  "map_option (map NewGroupID)
     (processGroups rev [0, 1, 0, 1, 0, 1, 0, 1, 2, 3, 4, 5, 6, 7] [[2, 3, 4], [7]]
        (buildProblemIndex [(10, group10)]) [(10, group10)]) = Some [11, 11]"
  by code_simp

text \<open>When worker 0 finishes its grouping before worker 1 starts, the ids are 11 and 12.\<close>

lemma processGroups_sequential_ids:
  "map_option (map NewGroupID)
     (processGroups rev [0, 0, 0, 1, 1, 1, 0, 1, 2, 3, 4, 5, 6, 7] [[2, 3, 4], [7]]
        (buildProblemIndex [(10, group10)]) [(10, group10)]) = Some [11, 12]"
  by code_simp

lemma list_all_update:
  "list_all P xs \<Longrightarrow> P v \<Longrightarrow> list_all P (xs[w := v])"
  by (induction xs arbitrary: w) (auto split: nat.splits)

lemma filter_update_count:
  "w < length xs \<Longrightarrow>
   length (filter P (xs[w := v])) + (if P (xs ! w) then 1 else 0) =
   length (filter P xs) + (if P v then 1 else 0)"
proof (induction xs arbitrary: w)
  case Nil
  then show ?case by simp
next
  case (Cons x xs)
  show ?case
  proof (cases w)
    case 0
    then show ?thesis by simp
  next
    case (Suc w')
    with Cons.prems have "w' < length xs" by simp
    from Cons.IH [OF this] Suc show ?thesis by simp
  qed
qed

lemma wrapInt_id: "- (2 ^ 63) \<le> n \<Longrightarrow> n < 2 ^ 63 \<Longrightarrow> wrapInt n = n"
  by (simp add: wrapInt_def)

lemma workerStep_idsAbove:
  assumes "idsAbove seed n p" and "- (2 ^ 63) \<le> seed" and "seed + int n < 2 ^ 63"
  shows "idsAbove seed n (workerStep mapOrder newGroups idx groups w p)"
proof (cases "w < length (workerPCs p)")
  case False
  then show ?thesis using assms(1) by (simp add: workerStep_def)
next
  case True
  then have h: "heldAbove seed (workerPCs p ! w)"
    using assms(1) by (simp add: idsAbove_def list_all_length)
  note c = filter_update_count [OF True, of busy]
  show ?thesis
  proof (cases "workerPCs p ! w")
    case Receiving
    show ?thesis
    proof (cases "jobs p")
      case Nil
      with Receiving assms(1) True c [of Returned] show ?thesis
        by (auto simp: workerStep_def idsAbove_def heldAbove_def busy_def intro!: list_all_update)
    next
      case (Cons i rest)
      with Receiving assms(1) True c [of "BeforeLoad (newGroups ! i)
          (findCrossingGroups mapOrder (newGroups ! i) idx groups)"] show ?thesis
        by (auto simp: workerStep_def idsAbove_def heldAbove_def busy_def intro!: list_all_update)
    qed
  next
    case (BeforeLoad newGroup crossing)
    with assms(1) True c [of "BeforeIncrement newGroup crossing (nextGroupID p)"] show ?thesis
      by (auto simp: workerStep_def idsAbove_def heldAbove_def busy_def intro!: list_all_update)
  next
    case (BeforeIncrement newGroup crossing newGroupID)
    with assms(1) True c [of Receiving]
    have b: "nextGroupID p + 1 + int (length (jobs p) +
               length (filter busy ((workerPCs p)[w := Receiving]))) \<le> seed + int n"
      by (simp add: idsAbove_def busy_def)
    then have "nextGroupID p + 1 \<le> seed + int n" by linarith
    with assms have "wrapInt (nextGroupID p + 1) = nextGroupID p + 1"
      by (intro wrapInt_id) (auto simp: idsAbove_def)
    with BeforeIncrement assms(1) True h b show ?thesis
      by (auto simp: workerStep_def idsAbove_def heldAbove_def makeResult_def Let_def
               intro!: list_all_update)
  next
    case Returned
    then show ?thesis using assms(1) True by (simp add: workerStep_def)
  qed
qed

lemma runSchedule_idsAbove:
  "idsAbove seed n p \<Longrightarrow> - (2 ^ 63) \<le> seed \<Longrightarrow> seed + int n < 2 ^ 63 \<Longrightarrow>
   idsAbove seed n (runSchedule mapOrder newGroups idx groups schedule p)"
  by (induction schedule arbitrary: p) (simp_all add: workerStep_idsAbove)

lemma maxLoop_ge: "m \<le> maxLoop ks m \<and> (\<forall>k \<in> set ks. k \<le> maxLoop ks m)"
proof (induction ks arbitrary: m)
  case Nil
  then show ?case by simp
next
  case (Cons k ks)
  from Cons [of "if m < k then k else m"] show ?case by (auto split: if_splits)
qed

lemma getMaxGroupID_ge: "0 \<le> getMaxGroupID groups \<and> list_all (\<lambda>kv. fst kv \<le> getMaxGroupID groups) groups"
  using maxLoop_ge [of 0 "map fst groups"] by (simp add: getMaxGroupID_def list_all_iff)

lemma startPool_idsAbove:
  assumes "getMaxGroupID groups + 1 + int (length newGroups) < 2 ^ 63"
  shows "idsAbove (getMaxGroupID groups + 1) (length newGroups) (startPool newGroups groups)"
proof -
  have "0 \<le> getMaxGroupID groups" using getMaxGroupID_ge by blast
  with assms have "wrapInt (getMaxGroupID groups + 1) = getMaxGroupID groups + 1"
    by (intro wrapInt_id) auto
  then show ?thesis
    by (simp add: idsAbove_def startPool_def heldAbove_def busy_def list_all_iff)
qed

text \<open>
  Under every schedule, and as long as the counter stays below \<open>2 ^ 63\<close>, every new
  group id of a run is strictly greater than \<open>getMaxGroupID\<close> of the snapshot, which is
  at least every group id in it.
\<close>

theorem processGroups_ids_above_max:
  assumes "processGroups mapOrder schedule newGroups idx groups = Some results"
      and "getMaxGroupID groups + 1 + int (length newGroups) < 2 ^ 63"
  shows "list_all (\<lambda>r. getMaxGroupID groups < NewGroupID r) results \<and>
         list_all (\<lambda>kv. fst kv \<le> getMaxGroupID groups) groups"
proof -
  let ?p = "runSchedule mapOrder newGroups idx groups schedule (startPool newGroups groups)"
  have "0 \<le> getMaxGroupID groups" using getMaxGroupID_ge by blast
  then have "idsAbove (getMaxGroupID groups + 1) (length newGroups) ?p"
    using startPool_idsAbove [OF assms(2)] assms(2) by (intro runSchedule_idsAbove) auto
  then have "list_all (\<lambda>r. getMaxGroupID groups < NewGroupID r) (resultsChan ?p)"
    by (fastforce simp: idsAbove_def list_all_iff)
  moreover have "results = sort_key NewGroupID (resultsChan ?p)"
    using assms(1) by (simp add: processGroups_def Let_def split: if_splits)
  ultimately have "list_all (\<lambda>r. getMaxGroupID groups < NewGroupID r) results"
    by (simp add: list_all_iff)
  then show ?thesis using getMaxGroupID_ge by blast
qed

theorem processGroups_ids_above_max_witness:
  "processGroups rev [0, 1, 0, 1, 0, 1, 0, 1, 2, 3, 4, 5, 6, 7] [[2, 3, 4], [7]]
     (buildProblemIndex [(10, group10)]) [(10, group10)] \<noteq> None \<and>
   getMaxGroupID [(10, group10)] + 1 + int (length [[2, 3, 4], [7 :: int]]) < 2 ^ 63 \<and>
   list_all (\<lambda>r. 10 < NewGroupID r)
     (the (processGroups rev [0, 1, 0, 1, 0, 1, 0, 1, 2, 3, 4, 5, 6, 7] [[2, 3, 4], [7]]
        (buildProblemIndex [(10, group10)]) [(10, group10)]))"
proof -
  have m: "getMaxGroupID [(10, group10)] = 10" by code_simp
  have b: "getMaxGroupID [(10, group10)] + 1 + int (length [[2, 3, 4], [7 :: int]]) < 2 ^ 63"
    by (simp add: m)
  have "processGroups rev [0, 1, 0, 1, 0, 1, 0, 1, 2, 3, 4, 5, 6, 7] [[2, 3, 4], [7]]
     (buildProblemIndex [(10, group10)]) [(10, group10)] \<noteq> None"
    by code_simp
  then obtain results where r: "processGroups rev [0, 1, 0, 1, 0, 1, 0, 1, 2, 3, 4, 5, 6, 7]
     [[2, 3, 4], [7]] (buildProblemIndex [(10, group10)]) [(10, group10)] = Some results"
    by blast
  from processGroups_ids_above_max [OF r b] r m b show ?thesis by simp
qed

text \<open>With the largest 64-bit id in the snapshot the seed of the counter wraps around.\<close>

lemma processGroups_counter_wraps:
  "map_option (map NewGroupID)
     (processGroups rev [0, 0, 0, 0, 1, 2, 3, 4, 5, 6, 7] [[7]] Map.empty
        [(9223372036854775807, group10\<lparr>ID := 9223372036854775807\<rparr>)])
     = Some [- 9223372036854775808]"
  by code_simp

section \<open>Theorems about the applier\<close>

lemma driverCall_eq:
  "driverCall tx = (\<not> (Faults tx \<noteq> [] \<and> hd (Faults tx)), tx\<lparr>Faults := tl (Faults tx)\<rparr>)"
  by (cases "Faults tx") (simp_all add: driverCall_def)

lemma driverCall_no_faults: "Faults tx = [] \<Longrightarrow> driverCall tx = (True, tx)"
  by (simp add: driverCall_def)

subsection \<open>Records without members\<close>

text \<open>
  Claim C10. For a record whose member list is empty, \<open>processResult\<close> returns success
  at once with the transaction as it was: the store, the pending driver calls and the
  output are unchanged (no group row, no soft-delete, no reassignment, no flag change, no
  warning), and the chunk goes on with the next record.
\<close>

theorem processResult_empty:
  assumes "ResultProblemIDs result = []"
  shows "processResult tx result = Inr tx \<and>
         processResults tx (result # rest) = processResults tx rest"
  using assms by (simp add: processResult_def)

theorem processResult_empty_witness:
  "ResultProblemIDs recordEmpty = [] \<and>
   processResult (txA\<lparr>Faults := [True]\<rparr>) recordEmpty = Inr (txA\<lparr>Faults := [True]\<rparr>) \<and>
   processBatch txA [recordEmpty] = Inr txA"
proof -
  have e: "ResultProblemIDs recordEmpty = []" by (simp add: recordEmpty_def)
  have "processBatch txA [recordEmpty] = Inr txA"
    using processResult_empty [OF e, of "txA\<lparr>TxOpen := True\<rparr>" "[]"]
    by (simp add: processBatch_def BeginTx_def Commit_def Rollback_def deferRollback_def
          driverCall_def txA_def)
  then show ?thesis using e processResult_empty [OF e, of "txA\<lparr>Faults := [True]\<rparr>" "[]"] by simp
qed

subsection \<open>Records whose members have all vanished\<close>

lemma getCategory_absent:
  assumes "\<not> list_ex (isLiveProblem p) (Exercises (TxStore tx))"
      and "\<not> (Faults tx \<noteq> [] \<and> hd (Faults tx))"
  shows "getCategoryIDFromProblem tx p = Inr (0, tx\<lparr>Faults := tl (Faults tx)\<rparr>)"
proof -
  have "find (isLiveProblem p) (Exercises (TxStore tx)) = None"
    using assms(1) by (simp add: find_None_iff list_ex_iff)
  then show ?thesis using assms(2)
    by (simp add: getCategoryIDFromProblem_def driverCall_eq)
qed

lemma categoryLoop_absent:
  assumes "\<forall>p \<in> set ps. \<not> list_ex (isLiveProblem p) (Exercises (TxStore tx))"
      and "True \<notin> set (take (length ps) (Faults tx))"
  shows "categoryLoop tx ps = Inr (0, tx\<lparr>Faults := drop (length ps) (Faults tx)\<rparr>)"
  using assms
proof (induction ps arbitrary: tx)
  case Nil
  then show ?case by simp
next
  case (Cons p ps)
  let ?tx = "tx\<lparr>Faults := tl (Faults tx)\<rparr>"
  have nf: "\<not> (Faults tx \<noteq> [] \<and> hd (Faults tx))"
    using Cons.prems(2) by (cases "Faults tx") auto
  have g: "getCategoryIDFromProblem tx p = Inr (0, ?tx)"
    using Cons.prems(1) nf by (simp add: getCategory_absent)
  have "True \<notin> set (take (length ps) (Faults ?tx))"
    using Cons.prems(2) by (cases "Faults tx") auto
  moreover have "\<forall>p \<in> set ps. \<not> list_ex (isLiveProblem p) (Exercises (TxStore ?tx))"
    using Cons.prems(1) by simp
  ultimately have "categoryLoop ?tx ps = Inr (0, ?tx\<lparr>Faults := drop (length ps) (Faults ?tx)\<rparr>)"
    by (rule Cons.IH [rotated])
  then show ?case using g by (simp add: drop_Suc)
qed

text \<open>
  Claim C5. For a record with members none of which exists (not soft-deleted) in the
  store, and as long as the driver does not fail on the category queries, one per
  member, \<open>processResult\<close> returns success: the transaction's tables are unchanged, the
  only output is the warning that names the record's group id, and the chunk goes on
  with the remaining records in the same transaction, so the commit still happens for
  them. Nothing else of the state changes either: not the committed tables, not the
  sequence of group ids, and the transaction stays open.
\<close>

theorem processResult_skips_vanished:
  assumes "ResultProblemIDs result \<noteq> []"
      and "\<forall>p \<in> set (ResultProblemIDs result). \<not> list_ex (isLiveProblem p) (Exercises (TxStore tx))"
      and "True \<notin> set (take (length (ResultProblemIDs result)) (Faults tx))"
  shows "\<exists>tx'. processResult tx result = Inr tx' \<and>
           TxStore tx' = TxStore tx \<and>
           Stdout tx' = Stdout tx @ [WarningSkippingGroup (NewGroupID result)] \<and>
           Faults tx' = drop (length (ResultProblemIDs result)) (Faults tx) \<and>
           processResults tx (result # rest) = processResults tx' rest \<and>
           Committed tx' = Committed tx \<and> GroupSeq tx' = GroupSeq tx \<and>
           TxOpen tx' = TxOpen tx"
  using assms(1) categoryLoop_absent [OF assms(2,3)]
  by (simp add: processResult_def)


theorem processResult_skips_vanished_witness:
  "ResultProblemIDs recordGone \<noteq> [] \<and>
   (\<exists>tx'. processResult txA recordGone = Inr tx' \<and>
      TxStore tx' = storeA \<and> Stdout tx' = [WarningSkippingGroup 13] \<and>
      processResults txA [recordGone, recordA] = processResults tx' [recordA] \<and>
      Committed tx' = storeA \<and> GroupSeq tx' = 100) \<and>
   fst (uploadResults txA [recordGone, recordA]) = None"
proof -
  have n: "ResultProblemIDs recordGone \<noteq> []" by (simp add: recordGone_def)
  have a: "\<forall>p \<in> set (ResultProblemIDs recordGone).
             \<not> list_ex (isLiveProblem p) (Exercises (TxStore txA))"
    by (simp add: recordGone_def txA_def storeA_def exercise_def isLiveProblem_def)
  have f: "True \<notin> set (take (length (ResultProblemIDs recordGone)) (Faults txA))"
    by (simp add: txA_def)
  have u: "fst (uploadResults txA [recordGone, recordA]) = None"
    by code_simp
  have st: "TxStore txA = storeA" "Committed txA = storeA" "GroupSeq txA = 100"
    and out: "Stdout txA = []"
    by (simp_all add: txA_def)
  have g: "NewGroupID recordGone = 13" by (simp add: recordGone_def)
  from processResult_skips_vanished [OF n a f, of "[recordA]"] obtain tx' where
    "processResult txA recordGone = Inr tx'" "TxStore tx' = TxStore txA"
    "Stdout tx' = Stdout txA @ [WarningSkippingGroup (NewGroupID recordGone)]"
    "processResults txA [recordGone, recordA] = processResults tx' [recordA]"
    "Committed tx' = Committed txA" "GroupSeq tx' = GroupSeq txA"
    by blast
  then have "processResult txA recordGone = Inr tx' \<and>
      TxStore tx' = storeA \<and> Stdout tx' = [WarningSkippingGroup 13] \<and>
      processResults txA [recordGone, recordA] = processResults tx' [recordA] \<and>
      Committed tx' = storeA \<and> GroupSeq tx' = 100"
    by (simp only: st out g append_Nil simp_thms)
  with n u show ?thesis by blast
qed

subsection \<open>The representative flag\<close>

lemma setRepresentativeExercise_exercises:
  assumes "setRepresentativeExercise tx problemID groupID = Inr tx'"
  shows "Exercises (TxStore tx') =
           map (\<lambda>e. if inLiveGroup groupID e
                     then e\<lparr>IsRepresentative := (MathflatProblemId e = Some problemID)\<rparr> else e)
             (Exercises (TxStore tx))"
proof -
  have i: "\<And>e b. inLiveGroup groupID (e\<lparr>IsRepresentative := b\<rparr>) = inLiveGroup groupID e"
    by (simp add: inLiveGroup_def)
  from assms show ?thesis
    by (auto simp: setRepresentativeExercise_def driverCall_eq Let_def i split: if_splits)
qed








subsection \<open>selectBestRepresentative of the applier\<close>

lemma scanRows_ok:
  "list_all (\<lambda>e. MathflatProblemId e \<noteq> None) rows \<Longrightarrow>
   \<exists>reps. scanRows rows acc = Inr reps \<and>
     map rowPair reps = map rowPair acc @
       List.map_filter (\<lambda>e. map_option (\<lambda>p. (p, SolutionVideoID e \<noteq> None)) (MathflatProblemId e)) rows"
proof (induction rows arbitrary: acc)
  case Nil
  then show ?case by simp
next
  case (Cons e rows)
  then obtain p where p: "MathflatProblemId e = Some p" by auto
  let ?acc = "acc @ [\<lparr>ExerciseID = ExID e, RowProblemID = p,
                 RowHasSolutionVideo = (SolutionVideoID e \<noteq> None)\<rparr>]"
  from Cons.prems have "list_all (\<lambda>e. MathflatProblemId e \<noteq> None) rows" by simp
  from Cons.IH [OF this, of ?acc] obtain reps where
    "scanRows rows ?acc = Inr reps"
    "map rowPair reps = map rowPair ?acc @
       List.map_filter (\<lambda>e. map_option (\<lambda>p. (p, SolutionVideoID e \<noteq> None)) (MathflatProblemId e)) rows"
    by blast
  moreover have "rowPair \<lparr>ExerciseID = ExID e, RowProblemID = p,
                 RowHasSolutionVideo = (SolutionVideoID e \<noteq> None)\<rparr> = (p, SolutionVideoID e \<noteq> None)"
    by (simp add: rowPair_def)
  ultimately show ?case using p by simp
qed

lemma queryRepresentatives_ok:
  "Faults tx = [] \<Longrightarrow> scannable (TxStore tx) cgs \<Longrightarrow>
   \<exists>reps. queryRepresentatives tx cgs acc = Inr (reps, tx) \<and>
     map rowPair reps = map rowPair acc @ liveRepresentatives (TxStore tx) cgs"
proof (induction cgs arbitrary: acc)
  case Nil
  then show ?case by (simp add: liveRepresentatives_def)
next
  case (Cons c cgs)
  let ?rows = "filter (isLiveRepresentativeOf (CrossingID c)) (Exercises (TxStore tx))"
  from Cons.prems have "list_all (\<lambda>e. MathflatProblemId e \<noteq> None) ?rows"
    by (simp add: scannable_def)
  from scanRows_ok [OF this, of acc] obtain reps where
    reps: "scanRows ?rows acc = Inr reps"
      "map rowPair reps = map rowPair acc @
       List.map_filter (\<lambda>e. map_option (\<lambda>p. (p, SolutionVideoID e \<noteq> None)) (MathflatProblemId e)) ?rows"
    by blast
  from Cons.prems have "scannable (TxStore tx) cgs" by (simp add: scannable_def)
  from Cons.IH [OF Cons.prems(1) this, of reps] obtain reps' where
    "queryRepresentatives tx cgs reps = Inr (reps', tx)"
    "map rowPair reps' = map rowPair reps @ liveRepresentatives (TxStore tx) cgs"
    by blast
  then show ?case using reps Cons.prems(1)
    by (simp add: driverCall_no_faults liveRepresentatives_def)
qed

lemma memberWithVideo_eq:
  "memberWithVideo rep ps =
     (if RowProblemID rep \<in> set ps \<and> RowHasSolutionVideo rep then Some (RowProblemID rep) else None)"
  by (induction ps) auto

lemma firstMemberWithVideo_eq:
  "firstMemberWithVideo reps ps =
     map_option fst (find snd (filter (\<lambda>r. fst r \<in> set ps) (map rowPair reps)))"
  by (induction reps) (auto simp: memberWithVideo_eq rowPair_def)

lemma memberMatch_eq:
  "memberMatch rep ps = (if RowProblemID rep \<in> set ps then Some (RowProblemID rep) else None)"
  by (induction ps) auto

lemma firstMember_eq:
  "firstMember reps ps =
     (case filter (\<lambda>r. fst r \<in> set ps) (map rowPair reps) of [] \<Rightarrow> None | r # _ \<Rightarrow> Some (fst r))"
  by (induction reps) (auto simp: memberMatch_eq rowPair_def)

lemma firstWithVideoInStore_eq:
  "Faults tx = [] \<Longrightarrow>
   firstWithVideoInStore tx ps = (find (hasVideoInStore (TxStore tx)) ps, tx)"
  by (induction ps) (auto simp: driverCall_no_faults hasVideoInStore_def split: option.splits)

lemma highest_Max: "ps \<noteq> [] \<Longrightarrow> highest ps = Max (set ps)"
  by (cases ps) (simp_all add: highest_def highestLoop_Max insert_absorb)

text \<open>
  Taken by itself, \<open>selectBestRepresentative\<close> computes the four tiers from the
  transaction it is given when the record has a crossing group, and the maximum member id
  when it has none.
\<close>

lemma selectBestRepresentativeTx_at_call:
  assumes "problemIDs \<noteq> []" and "Faults tx = []" and "scannable (TxStore tx) crossingGroups"
  shows "selectBestRepresentativeTx tx problemIDs crossingGroups =
           Inr (if crossingGroups = [] then Max (set problemIDs)
                else policyTx (TxStore tx) problemIDs crossingGroups, tx)"
proof (cases "crossingGroups = []")
  case True
  then show ?thesis using assms(1) by (simp add: selectBestRepresentativeTx_def highest_Max)
next
  case False
  from queryRepresentatives_ok [OF assms(2,3), of "[]"] obtain reps where
    q: "queryRepresentatives tx crossingGroups [] = Inr (reps, tx)"
    and r: "map rowPair reps = liveRepresentatives (TxStore tx) crossingGroups"
    by auto
  show ?thesis
    using False assms(1,2) q
    by (simp add: selectBestRepresentativeTx_def firstMemberWithVideo_eq firstMember_eq r
          firstWithVideoInStore_eq highest_Max policyTx_def Let_def
          split: option.splits list.splits)
qed

text \<open>
  But \<open>processResult\<close> calls it after \<open>updateExercisesGroup\<close>. Once that has completed,
  every live exercise that carries a member problem id belongs to the new group, so no
  live representative of a crossed group carries a member problem id any more (a new
  group id is never the id of a crossed group): the first two tiers find no candidate.
\<close>

lemma updateExercisesGroup_exercises:
  "updateExercisesGroup tx ps g = Inr tx' \<Longrightarrow>
   Exercises (TxStore tx') =
     map (\<lambda>e. if \<exists>p \<in> set ps. isLiveProblem p e then e\<lparr>ExerciseGroupID := Some g\<rparr> else e)
       (Exercises (TxStore tx))"
proof (induction ps arbitrary: tx)
  case Nil
  then show ?case by simp
next
  case (Cons p ps)
  have i: "\<And>q e. isLiveProblem q (e\<lparr>ExerciseGroupID := Some g\<rparr>) = isLiveProblem q e"
    by (simp add: isLiveProblem_def)
  let ?tx2 = "tx\<lparr>Faults := tl (Faults tx),
                TxStore := (TxStore tx)\<lparr>Exercises :=
                      map (\<lambda>e. if isLiveProblem p e
                                then e\<lparr>ExerciseGroupID := Some g\<rparr> else e)
                        (Exercises (TxStore tx))\<rparr>\<rparr>"
  from Cons.prems have r: "updateExercisesGroup ?tx2 ps g = Inr tx'"
    by (auto simp: driverCall_eq Let_def split: if_splits)
  have "Exercises (TxStore tx') =
     map (\<lambda>e. if \<exists>p \<in> set ps. isLiveProblem p e then e\<lparr>ExerciseGroupID := Some g\<rparr> else e)
       (Exercises (TxStore ?tx2))"
    by (rule Cons.IH [OF r])
  then show ?case by (auto simp: i)
qed

lemma no_crossed_representative_after_reassignment:
  assumes "updateExercisesGroup tx ps g = Inr tx'" and "g \<notin> CrossingID ` set cgs"
  shows "filter (\<lambda>r. fst r \<in> set ps) (liveRepresentatives (TxStore tx') cgs) = []"
proof -
  have "fst r \<notin> set ps" if r: "r \<in> set (liveRepresentatives (TxStore tx') cgs)" for r
  proof
    assume m: "fst r \<in> set ps"
    from r obtain c e where c: "c \<in> set cgs" and e: "e \<in> set (Exercises (TxStore tx'))"
      and l: "isLiveRepresentativeOf (CrossingID c) e" and p: "MathflatProblemId e = Some (fst r)"
      by (auto simp: liveRepresentatives_def map_filter_def)
    from e have "e \<in> (\<lambda>e. if \<exists>p \<in> set ps. isLiveProblem p e
                          then e\<lparr>ExerciseGroupID := Some g\<rparr> else e) ` set (Exercises (TxStore tx))"
      by (simp add: updateExercisesGroup_exercises [OF assms(1)])
    then obtain e0 where e0: "e0 \<in> set (Exercises (TxStore tx))"
      and ee: "e = (if \<exists>p \<in> set ps. isLiveProblem p e0 then e0\<lparr>ExerciseGroupID := Some g\<rparr> else e0)"
      by (rule imageE)
    have "isLiveProblem (fst r) e0"
      using p l ee by (auto simp: isLiveProblem_def isLiveRepresentativeOf_def split: if_splits)
    with m ee have "ExerciseGroupID e = Some g" by auto
    with l have "CrossingID c = g" by (simp add: isLiveRepresentativeOf_def)
    with c assms(2) show False by auto
  qed
  then show ?thesis by (simp add: filter_empty_conv)
qed

text \<open>
  So inside \<open>processResult\<close> the choice is the first member that has a video, else the
  maximum member id, when the record has a crossing group, and the maximum member id
  when it has none.
\<close>

lemma selectBestRepresentativeTx_after_reassignment:
  assumes "updateExercisesGroup tx0 ps g = Inr tx" and "g \<notin> CrossingID ` set cgs"
      and "ps \<noteq> []" and "Faults tx = []" and "scannable (TxStore tx) cgs"
  shows "selectBestRepresentativeTx tx ps cgs =
           Inr (if cgs = [] then Max (set ps)
                else case find (hasVideoInStore (TxStore tx)) ps of
                       Some p \<Rightarrow> p
                     | None \<Rightarrow> Max (set ps), tx)"
  using selectBestRepresentativeTx_at_call [OF assms(3,4,5)]
    no_crossed_representative_after_reassignment [OF assms(1,2)]
  by (simp add: policyTx_def)

text \<open>
  Claim C2 fails on two records. In \<open>storeB\<close> problem 1 is the representative of group
  10 and has no video, and problem 2 has one. For the record with members 1 and 2 that
  crosses group 10 the tiers choose problem 1, the crossed representative that is a
  member; the chunk of that record commits with problem 2 flagged in the new group 100
  and problem 1 not. In \<open>storeA\<close> problem 1 has a video and problem 2 has none. For the
  record with members 1 and 2 and no crossing group the tiers choose problem 1, the
  member with a video; the chunk of that record commits with problem 2 flagged.
\<close>

theorem processBatch_representative_not_by_tiers:
  "policyTx (Committed txB) [1, 2] [\<lparr>CrossingID = 10, Intersection = [1, 2]\<rparr>] = 1 \<and>
   map_sum fst
     (\<lambda>database. map (\<lambda>e. (MathflatProblemId e, ExerciseGroupID e, IsRepresentative e))
        (Exercises (Committed database)))
     (processBatch txB [recordCrossing]) =
     Inr [(Some 1, Some 100, False), (Some 2, Some 100, True), (Some 3, Some 20, True)] \<and>
   policyTx (Committed txA) [1, 2] [] = 1 \<and>
   map_sum fst
     (\<lambda>database. map (\<lambda>e. (MathflatProblemId e, ExerciseGroupID e, IsRepresentative e))
        (Exercises (Committed database)))
     (processBatch txA [recordA]) =
     Inr [(Some 1, Some 100, False), (Some 2, Some 100, True)]"
  by code_simp

subsection \<open>processBatch and uploadResults\<close>

lemma BeginTx_ok:
  "BeginTx database = Inr tx \<Longrightarrow>
   Committed tx = Committed database \<and> TxStore tx = Committed database \<and> TxOpen tx \<and>
   Stdout tx = Stdout database \<and> GroupSeq tx = GroupSeq database"
  by (auto simp: BeginTx_def driverCall_eq split: if_splits)

lemma BeginTx_failed:
  "BeginTx database = Inl (err, database') \<Longrightarrow> Committed database' = Committed database"
  by (auto simp: BeginTx_def driverCall_eq split: if_splits)

lemma Rollback_props:
  "Committed (Rollback tx) = Committed tx \<and> \<not> TxOpen (Rollback tx) \<and>
   Stdout (Rollback tx) = Stdout tx \<and> GroupSeq (Rollback tx) = GroupSeq tx \<and>
   (TxOpen tx \<longrightarrow> TxStore (Rollback tx) = Committed tx)"
  by (simp add: Rollback_def driverCall_eq)

lemma Commit_ok:
  "Commit tx = Inr tx' \<Longrightarrow> Committed tx' = TxStore tx \<and> \<not> TxOpen tx' \<and> Rollback tx' = tx'"
  by (auto simp: Commit_def Rollback_def driverCall_eq split: if_splits)

lemma Commit_failed:
  "Commit tx = Inl (err, tx') \<Longrightarrow> Committed tx' = Committed tx"
  by (auto simp: Commit_def driverCall_eq split: if_splits)

lemma getCategory_outside:
  "getCategoryIDFromProblem tx p = Inl (err, tx') \<or> getCategoryIDFromProblem tx p = Inr (c, tx') \<Longrightarrow>
   outsideUnchanged tx tx'"
  by (auto simp: getCategoryIDFromProblem_def outsideUnchanged_def driverCall_eq
           split: if_splits option.splits)

lemma categoryLoop_outside:
  "categoryLoop tx ps = Inl (err, tx') \<or> categoryLoop tx ps = Inr (c, tx') \<Longrightarrow>
   outsideUnchanged tx tx'"
proof (induction ps arbitrary: tx)
  case Nil
  then show ?case by (simp add: outsideUnchanged_def)
next
  case (Cons p ps)
  show ?case
  proof (cases "getCategoryIDFromProblem tx p")
    case (Inl a)
    with Cons.prems getCategory_outside [of tx p "fst a" "snd a"] show ?thesis
      by (cases a) auto
  next
    case (Inr b)
    obtain c1 tx1 where b: "b = (c1, tx1)" by (cases b)
    from Inr b getCategory_outside [of tx p err tx1 c1] have 1: "outsideUnchanged tx tx1"
      by simp
    show ?thesis
    proof (cases "c1 = 0")
      case True
      with Cons.prems Inr b have "categoryLoop tx1 ps = Inl (err, tx') \<or>
          categoryLoop tx1 ps = Inr (c, tx')"
        by simp
      from Cons.IH [OF this] 1 show ?thesis by (simp add: outsideUnchanged_def)
    next
      case False
      with Cons.prems Inr b 1 show ?thesis by auto
    qed
  qed
qed

lemma create_outside:
  "createExerciseGroup tx c = Inl (err, tx') \<or> createExerciseGroup tx c = Inr (g, tx') \<Longrightarrow>
   outsideUnchanged tx tx'"
  by (auto simp: createExerciseGroup_def outsideUnchanged_def driverCall_eq Let_def
           split: if_splits)

lemma mark_outside:
  "markGroupAsDeleted tx g = Inl (err, tx') \<or> markGroupAsDeleted tx g = Inr tx' \<Longrightarrow>
   outsideUnchanged tx tx'"
  by (auto simp: markGroupAsDeleted_def outsideUnchanged_def driverCall_eq Let_def
           split: if_splits)

lemma markLoop_outside:
  "markLoop tx cgs = Inl (err, tx') \<or> markLoop tx cgs = Inr tx' \<Longrightarrow> outsideUnchanged tx tx'"
proof (induction cgs arbitrary: tx)
  case Nil
  then show ?case by (simp add: outsideUnchanged_def)
next
  case (Cons c cgs)
  show ?case
  proof (cases "markGroupAsDeleted tx (CrossingID c)")
    case (Inl a)
    with Cons.prems mark_outside [of tx "CrossingID c" "fst a" "snd a"] show ?thesis
      by (cases a) auto
  next
    case (Inr tx1)
    with mark_outside [of tx "CrossingID c" err tx1] have 1: "outsideUnchanged tx tx1"
      by simp
    from Cons.prems Inr have "markLoop tx1 cgs = Inl (err, tx') \<or> markLoop tx1 cgs = Inr tx'"
      by simp
    from Cons.IH [OF this] 1 show ?thesis by (simp add: outsideUnchanged_def)
  qed
qed

lemma update_outside:
  "updateExercisesGroup tx ps g = Inl (err, tx') \<or> updateExercisesGroup tx ps g = Inr tx' \<Longrightarrow>
   outsideUnchanged tx tx'"
proof (induction ps arbitrary: tx)
  case Nil
  then show ?case by (simp add: outsideUnchanged_def)
next
  case (Cons p ps)
  let ?tx2 = "tx\<lparr>Faults := tl (Faults tx),
                TxStore := (TxStore tx)\<lparr>Exercises :=
                      map (\<lambda>e. if isLiveProblem p e
                                then e\<lparr>ExerciseGroupID := Some g\<rparr> else e)
                        (Exercises (TxStore tx))\<rparr>\<rparr>"
  show ?case
  proof (cases "Faults tx \<noteq> [] \<and> hd (Faults tx)")
    case True
    with Cons.prems show ?thesis
      by (auto simp: driverCall_eq outsideUnchanged_def)
  next
    case False
    with Cons.prems have "updateExercisesGroup ?tx2 ps g = Inl (err, tx') \<or>
        updateExercisesGroup ?tx2 ps g = Inr tx'"
      by (auto simp: driverCall_eq Let_def)
    from Cons.IH [OF this] show ?thesis by (simp add: outsideUnchanged_def)
  qed
qed

lemma queryRepresentatives_outside:
  "queryRepresentatives tx cgs acc = Inl (err, tx') \<or>
   queryRepresentatives tx cgs acc = Inr (reps, tx') \<Longrightarrow>
   outsideUnchanged tx tx'"
proof (induction cgs arbitrary: tx acc)
  case Nil
  then show ?case by (simp add: outsideUnchanged_def)
next
  case (Cons c cgs)
  let ?tx1 = "tx\<lparr>Faults := tl (Faults tx)\<rparr>"
  show ?case
  proof (cases "Faults tx \<noteq> [] \<and> hd (Faults tx)")
    case True
    with Cons.prems show ?thesis
      by (auto simp: driverCall_eq outsideUnchanged_def)
  next
    case False
    show ?thesis
    proof (cases "scanRows (filter (isLiveRepresentativeOf (CrossingID c))
                               (Exercises (TxStore tx))) acc")
      case (Inl e)
      with Cons.prems False show ?thesis
        by (auto simp: driverCall_eq outsideUnchanged_def)
    next
      case (Inr reps1)
      with Cons.prems False have "queryRepresentatives ?tx1 cgs reps1 = Inl (err, tx') \<or>
          queryRepresentatives ?tx1 cgs reps1 = Inr (reps, tx')"
        by (auto simp: driverCall_eq)
      from Cons.IH [OF this] show ?thesis by (simp add: outsideUnchanged_def)
    qed
  qed
qed

lemma firstWithVideoInStore_outside:
  "firstWithVideoInStore tx ps = (r, tx') \<Longrightarrow> outsideUnchanged tx tx'"
proof (induction ps arbitrary: tx)
  case Nil
  then show ?case by (simp add: outsideUnchanged_def)
next
  case (Cons p ps)
  let ?tx1 = "tx\<lparr>Faults := tl (Faults tx)\<rparr>"
  from Cons.prems have "tx' = ?tx1 \<or> firstWithVideoInStore ?tx1 ps = (r, tx')"
    by (auto simp: driverCall_eq split: option.splits if_splits)
  with Cons.IH [of ?tx1] show ?case by (auto simp: outsideUnchanged_def)
qed

lemma select_outside:
  "selectBestRepresentativeTx tx ps cgs = Inl (err, tx') \<or>
   selectBestRepresentativeTx tx ps cgs = Inr (r, tx') \<Longrightarrow>
   outsideUnchanged tx tx'"
proof (cases "length ps = 0 \<or> length cgs = 0")
  case True
  assume "selectBestRepresentativeTx tx ps cgs = Inl (err, tx') \<or>
          selectBestRepresentativeTx tx ps cgs = Inr (r, tx')"
  with True show ?thesis
    by (auto simp: selectBestRepresentativeTx_def outsideUnchanged_def split: if_splits)
next
  case False
  assume a: "selectBestRepresentativeTx tx ps cgs = Inl (err, tx') \<or>
          selectBestRepresentativeTx tx ps cgs = Inr (r, tx')"
  show ?thesis
  proof (cases "queryRepresentatives tx cgs []")
    case (Inl e)
    with a False queryRepresentatives_outside [of tx cgs "[]" "fst e" "snd e"] show ?thesis
      by (cases e) (auto simp: selectBestRepresentativeTx_def)
  next
    case (Inr b)
    obtain reps tx1 where b: "b = (reps, tx1)" by (cases b)
    from Inr b queryRepresentatives_outside [of tx cgs "[]" err tx1 reps]
    have 1: "outsideUnchanged tx tx1" by simp
    obtain v tx2 where f: "firstWithVideoInStore tx1 ps = (v, tx2)"
      by (cases "firstWithVideoInStore tx1 ps")
    from firstWithVideoInStore_outside [OF f] 1 have 2: "outsideUnchanged tx tx2"
      by (simp add: outsideUnchanged_def)
    from a False Inr b f have "tx' = tx1 \<or> tx' = tx2"
      by (auto simp: selectBestRepresentativeTx_def split: option.splits)
    with 1 2 show ?thesis by auto
  qed
qed

lemma setRep_outside:
  "setRepresentativeExercise tx p g = Inl (err, tx') \<or> setRepresentativeExercise tx p g = Inr tx' \<Longrightarrow>
   outsideUnchanged tx tx'"
  by (auto simp: setRepresentativeExercise_def outsideUnchanged_def driverCall_eq Let_def
           split: if_splits)

text \<open>
  A record that fails has printed nothing and leaves the committed tables alone; a record
  that succeeds leaves them alone too, and the transaction open.
\<close>

lemma processResult_outside:
  assumes "processResult tx result = Inl (err, tx') \<or> processResult tx result = Inr tx'"
  shows "Committed tx' = Committed tx \<and> TxOpen tx' = TxOpen tx \<and>
         (processResult tx result = Inl (err, tx') \<longrightarrow> Stdout tx' = Stdout tx)"
proof (cases "length (ResultProblemIDs result) = 0")
  case True
  with assms show ?thesis by (auto simp: processResult_def)
next
  case False
  note ne = False
  show ?thesis
  proof (cases "categoryLoop tx (ResultProblemIDs result)")
    case (Inl a)
    with assms ne categoryLoop_outside [of tx "ResultProblemIDs result" "fst a" "snd a"]
    show ?thesis by (cases a) (auto simp: processResult_def outsideUnchanged_def)
  next
    case (Inr b)
    obtain c tx1 where b: "b = (c, tx1)" by (cases b)
    from Inr b categoryLoop_outside [of tx "ResultProblemIDs result" err tx1 c]
    have 1: "outsideUnchanged tx tx1" by simp
    show ?thesis
    proof (cases "c = 0")
      case True
      with assms ne Inr b 1 show ?thesis
        by (auto simp: processResult_def outsideUnchanged_def)
    next
      case nz: False
      show ?thesis
      proof (cases "createExerciseGroup tx1 c")
        case (Inl a)
        with assms ne Inr b nz 1 create_outside [of tx1 c "fst a" "snd a"]
        show ?thesis by (cases a) (auto simp: processResult_def outsideUnchanged_def)
      next
        case cr: (Inr b2)
        obtain g tx2 where b2: "b2 = (g, tx2)" by (cases b2)
        from cr b2 create_outside [of tx1 c err tx2 g] 1
        have 2: "outsideUnchanged tx tx2" by (simp add: outsideUnchanged_def)
        show ?thesis
        proof (cases "markLoop tx2 (CrossingGroups result)")
          case (Inl a)
          with assms ne Inr b nz cr b2 2 markLoop_outside [of tx2 "CrossingGroups result" "fst a" "snd a"]
          show ?thesis by (cases a) (auto simp: processResult_def outsideUnchanged_def)
        next
          case mk: (Inr tx3)
          from mk markLoop_outside [of tx2 "CrossingGroups result" err tx3] 2
          have 3: "outsideUnchanged tx tx3" by (simp add: outsideUnchanged_def)
          show ?thesis
          proof (cases "updateExercisesGroup tx3 (ResultProblemIDs result) g")
            case (Inl a)
            with assms ne Inr b nz cr b2 mk 3
              update_outside [of tx3 "ResultProblemIDs result" g "fst a" "snd a"]
            show ?thesis by (cases a) (auto simp: processResult_def outsideUnchanged_def)
          next
            case up: (Inr tx4)
            from up update_outside [of tx3 "ResultProblemIDs result" g err tx4] 3
            have 4: "outsideUnchanged tx tx4" by (simp add: outsideUnchanged_def)
            show ?thesis
            proof (cases "selectBestRepresentativeTx tx4 (ResultProblemIDs result)
                            (CrossingGroups result)")
              case (Inl a)
              with assms ne Inr b nz cr b2 mk up 4
                select_outside [of tx4 "ResultProblemIDs result" "CrossingGroups result"
                  "fst a" "snd a"]
              show ?thesis by (cases a) (auto simp: processResult_def outsideUnchanged_def)
            next
              case se: (Inr b5)
              obtain r tx5 where b5: "b5 = (r, tx5)" by (cases b5)
              from se b5 select_outside [of tx4 "ResultProblemIDs result"
                  "CrossingGroups result" err tx5 r] 4
              have 5: "outsideUnchanged tx tx5" by (simp add: outsideUnchanged_def)
              show ?thesis
              proof (cases "r = 0")
                case True
                with assms ne Inr b nz cr b2 mk up se b5 5 show ?thesis
                  by (auto simp: processResult_def outsideUnchanged_def)
              next
                case False
                with assms ne Inr b nz cr b2 mk up se b5
                have "setRepresentativeExercise tx5 r g = Inl (err, tx') \<or>
                      setRepresentativeExercise tx5 r g = Inr tx'"
                  by (auto simp: processResult_def)
                from setRep_outside [OF this] 5 show ?thesis
                  by (simp add: outsideUnchanged_def)
              qed
            qed
          qed
        qed
      qed
    qed
  qed
qed

lemma processResults_outside:
  "processResults tx batch = Inl (err, tx') \<or> processResults tx batch = Inr tx' \<Longrightarrow>
   Committed tx' = Committed tx \<and> TxOpen tx' = TxOpen tx"
proof (induction batch arbitrary: tx)
  case Nil
  then show ?case by simp
next
  case (Cons result batch)
  show ?case
  proof (cases "processResult tx result")
    case (Inl a)
    obtain e txf where a: "a = (e, txf)" by (cases a)
    from Cons.prems Inl a have "tx' = txf" by simp
    with Inl a processResult_outside [of tx result e txf] show ?thesis by simp
  next
    case (Inr tx1)
    with Cons.prems have "processResults tx1 batch = Inl (err, tx') \<or>
        processResults tx1 batch = Inr tx'"
      by simp
    from Cons.IH [OF this] Inr processResult_outside [of tx result err tx1] show ?thesis
      by simp
  qed
qed

lemma processResults_append:
  "processResults tx (xs @ ys) =
     (case processResults tx xs of Inl err \<Rightarrow> Inl err | Inr tx' \<Rightarrow> processResults tx' ys)"
  by (induction xs arbitrary: tx) (auto split: sum.splits)

lemma processResults_all:
  "processResults tx batch = Inr tx' \<Longrightarrow> k < length batch \<Longrightarrow>
   \<exists>txk txk'. processResults tx (take k batch) = Inr txk \<and> processResult txk (batch ! k) = Inr txk'"
proof -
  assume a: "processResults tx batch = Inr tx'" and k: "k < length batch"
  have "batch = take k batch @ batch ! k # drop (Suc k) batch"
    using k by (simp add: id_take_nth_drop)
  then have "processResults tx (take k batch @ batch ! k # drop (Suc k) batch) = Inr tx'"
    using a by simp
  then show ?thesis
    by (auto simp: processResults_append split: sum.splits)
qed

lemma processResults_fail:
  "k < length batch \<Longrightarrow> processResults tx (take k batch) = Inr txk \<Longrightarrow>
   processResult txk (batch ! k) = Inl (err, txf) \<Longrightarrow>
   processResults tx batch = Inl (FailedToProcessResult (NewGroupID (batch ! k)) err, txf)"
proof -
  assume k: "k < length batch" and a: "processResults tx (take k batch) = Inr txk"
     and b: "processResult txk (batch ! k) = Inl (err, txf)"
  have "processResults tx (take k batch @ batch ! k # drop (Suc k) batch) =
          Inl (FailedToProcessResult (NewGroupID (batch ! k)) err, txf)"
    using a b by (simp add: processResults_append)
  then show ?thesis using k by (simp add: id_take_nth_drop [symmetric])
qed

lemma processBatch_committed:
  assumes "processBatch database batch = Inl (err, failed)"
  shows "Committed failed = Committed database"
proof (cases "BeginTx database")
  case (Inl a)
  with assms BeginTx_failed [of database err failed] show ?thesis
    by (simp add: processBatch_def)
next
  case (Inr tx)
  note b = BeginTx_ok [OF Inr]
  show ?thesis
  proof (cases "processResults tx batch")
    case (Inl a)
    obtain e txf where a: "a = (e, txf)" by (cases a)
    from assms Inr Inl a have "failed = Rollback txf"
      by (simp add: processBatch_def deferRollback_def)
    with Inl a processResults_outside [of tx batch e txf] b Rollback_props [of txf]
    show ?thesis by simp
  next
    case ok: (Inr tx')
    from assms Inr ok obtain txc where c: "Commit tx' = Inl (err, txc)" and f: "failed = Rollback txc"
      by (cases "Commit tx'") (auto simp: processBatch_def deferRollback_def)
    from Commit_failed [OF c] f ok processResults_outside [of tx batch err tx'] b
      Rollback_props [of txc]
    show ?thesis by simp
  qed
qed

lemma uploadLoop_failed:
  assumes "i < length results"
      and "processBatch database (take batchSize (drop i results)) = Inl (err, failed)"
  shows "uploadLoop i database results =
           (Some (FailedToProcessBatch i (min (length results) (i + batchSize) - 1) err), failed)"
proof (cases "length results < i + batchSize")
  case True
  then have "take (length results - i) (drop i results) = take batchSize (drop i results)"
    by simp
  with assms True show ?thesis
    by (simp add: uploadLoop.simps [of i] Let_def min_def)
next
  case False
  with assms show ?thesis
    by (simp add: uploadLoop.simps [of i] Let_def min_def)
qed

text \<open>
  Claim C4. The chunk is the unit of atomicity. If \<open>processBatch\<close> returns success, the
  transaction was begun, every record of the chunk was processed in it without error,
  each in the state its predecessors left, and the commit made the tables of that
  transaction the committed ones. If \<open>processBatch\<close> returns an error, whichever call
  failed, the committed tables are those from before the chunk. If processing record
  \<open>k\<close> of the chunk returns an error, \<open>processBatch\<close> returns that error wrapped with the
  record's group id and processes no later record; the deferred rollback has ended the
  transaction and discarded its writes, those of the records before \<open>k\<close> included, while
  what those records printed stays printed. And when \<open>processBatch\<close> fails on the chunk
  at position \<open>i\<close>, the loop of \<open>uploadResults\<close> stops there and returns that error
  wrapped with the chunk's bounds, with the committed tables as they were before the
  chunk.
\<close>

theorem processBatch_atomic:
  "(processBatch database batch = Inr database' \<longrightarrow>
      (\<exists>tx tx'. BeginTx database = Inr tx \<and> processResults tx batch = Inr tx' \<and>
         Commit tx' = Inr database' \<and> Committed database' = TxStore tx' \<and>
         (\<forall>j < length batch. \<exists>txj txj'.
             processResults tx (take j batch) = Inr txj \<and>
             processResult txj (batch ! j) = Inr txj'))) \<and>
   (processBatch database batch = Inl (err, failed) \<longrightarrow>
      Committed failed = Committed database) \<and>
   (BeginTx database = Inr tx \<and> k < length batch \<and>
    processResults tx (take k batch) = Inr txk \<and>
    processResult txk (batch ! k) = Inl (errk, txf) \<longrightarrow>
      processBatch database batch =
        Inl (FailedToProcessResult (NewGroupID (batch ! k)) errk, Rollback txf) \<and>
      Committed (Rollback txf) = Committed database \<and>
      TxStore (Rollback txf) = Committed database \<and>
      \<not> TxOpen (Rollback txf) \<and>
      Stdout (Rollback txf) = Stdout txk) \<and>
   (i < length results \<and>
    processBatch database (take batchSize (drop i results)) = Inl (erri, failedi) \<longrightarrow>
      uploadLoop i database results =
        (Some (FailedToProcessBatch i (min (length results) (i + batchSize) - 1) erri), failedi) \<and>
      Committed (snd (uploadLoop i database results)) = Committed database)"
proof (intro conjI impI)
  assume c: "processBatch database batch = Inr database'"
  then obtain tx where b: "BeginTx database = Inr tx"
    by (cases "BeginTx database") (auto simp: processBatch_def)
  from c b obtain tx' where p: "processResults tx batch = Inr tx'"
    by (cases "processResults tx batch") (auto simp: processBatch_def deferRollback_def)
  from c b p obtain txc where m: "Commit tx' = Inr txc" and d: "database' = Rollback txc"
    by (cases "Commit tx'") (auto simp: processBatch_def deferRollback_def)
  from Commit_ok [OF m] d have "Commit tx' = Inr database'" "Committed database' = TxStore tx'"
    using m by simp_all
  moreover have "\<forall>j < length batch. \<exists>txj txj'.
             processResults tx (take j batch) = Inr txj \<and>
             processResult txj (batch ! j) = Inr txj'"
    using processResults_all [OF p] by blast
  ultimately show "\<exists>tx tx'. BeginTx database = Inr tx \<and> processResults tx batch = Inr tx' \<and>
         Commit tx' = Inr database' \<and> Committed database' = TxStore tx' \<and>
         (\<forall>j < length batch. \<exists>txj txj'.
             processResults tx (take j batch) = Inr txj \<and>
             processResult txj (batch ! j) = Inr txj')"
    using b p by blast
next
  assume "processBatch database batch = Inl (err, failed)"
  then show "Committed failed = Committed database"
    by (rule processBatch_committed)
next
  assume a: "BeginTx database = Inr tx \<and> k < length batch \<and>
    processResults tx (take k batch) = Inr txk \<and>
    processResult txk (batch ! k) = Inl (errk, txf)"
  then have f: "processResults tx batch =
      Inl (FailedToProcessResult (NewGroupID (batch ! k)) errk, txf)"
    by (simp add: processResults_fail)
  with a show "processBatch database batch =
        Inl (FailedToProcessResult (NewGroupID (batch ! k)) errk, Rollback txf)"
    by (simp add: processBatch_def deferRollback_def)
  from a BeginTx_ok [of database tx]
  have b: "Committed tx = Committed database" "TxOpen tx" by simp_all
  from a processResults_outside [of tx "take k batch" errk txk]
  have k: "Committed txk = Committed tx" "TxOpen txk = TxOpen tx" by simp_all
  from a processResult_outside [of txk "batch ! k" errk txf]
  have r: "Committed txf = Committed txk" "TxOpen txf = TxOpen txk" "Stdout txf = Stdout txk"
    by simp_all
  from b k r Rollback_props [of txf]
  show "Committed (Rollback txf) = Committed database"
    and "TxStore (Rollback txf) = Committed database"
    and "\<not> TxOpen (Rollback txf)"
    and "Stdout (Rollback txf) = Stdout txk"
    by simp_all
next
  assume a: "i < length results \<and>
    processBatch database (take batchSize (drop i results)) = Inl (erri, failedi)"
  then have u: "uploadLoop i database results =
        (Some (FailedToProcessBatch i (min (length results) (i + batchSize) - 1) erri), failedi)"
    by (simp add: uploadLoop_failed)
  then show "uploadLoop i database results =
        (Some (FailedToProcessBatch i (min (length results) (i + batchSize) - 1) erri), failedi)" .
  from a have "Committed failedi = Committed database"
    by (auto dest: processBatch_committed)
  with u show "Committed (snd (uploadLoop i database results)) = Committed database"
    by simp
qed

theorem processBatch_atomic_witness:
  "processBatch txA [recordA, recordB] = Inr txDone \<and>
   (\<exists>tx tx'. BeginTx txA = Inr tx \<and> processResults tx [recordA, recordB] = Inr tx' \<and>
      Commit tx' = Inr txDone \<and> Committed txDone = TxStore tx' \<and>
      (\<exists>txj txj'. processResults tx (take 1 [recordA, recordB]) = Inr txj \<and>
          processResult txj ([recordA, recordB] ! 1) = Inr txj')) \<and>
   BeginTx txF = Inr txBegun \<and>
   processResults txBegun (take 2 [recordGone, recordA, recordB]) = Inr txK \<and>
   processResult txK ([recordGone, recordA, recordB] ! 2) =
     Inl (FailedToUpdateExercise 2 DriverError, txFailed) \<and>
   processBatch txF [recordGone, recordA, recordB] =
     Inl (FailedToProcessResult 12 (FailedToUpdateExercise 2 DriverError), Rollback txFailed) \<and>
   Rollback txFailed = txA\<lparr>GroupSeq := 102, Stdout := [WarningSkippingGroup 13]\<rparr> \<and>
   Committed (Rollback txFailed) = storeA \<and>
   TxStore (Rollback txFailed) = storeA \<and>
   \<not> TxOpen (Rollback txFailed) \<and>
   Stdout (Rollback txFailed) = [WarningSkippingGroup 13] \<and>
   uploadResults txF [recordGone, recordA, recordB] =
     (Some (FailedToProcessBatch 0 2
              (FailedToProcessResult 12 (FailedToUpdateExercise 2 DriverError))),
      Rollback txFailed)"
proof -
  let ?batch = "[recordGone, recordA, recordB]"
  let ?err = "FailedToUpdateExercise 2 DriverError"
  have ok: "processBatch txA [recordA, recordB] = Inr txDone" by code_simp
  have bg: "BeginTx txF = Inr txBegun" by code_simp
  have a: "processResults txBegun (take 2 ?batch) = Inr txK" by code_simp
  have b: "processResult txK (?batch ! 2) = Inl (?err, txFailed)" by code_simp
  have rb: "Rollback txFailed = txA\<lparr>GroupSeq := 102, Stdout := [WarningSkippingGroup 13]\<rparr>"
    by code_simp
  have g: "NewGroupID (?batch ! 2) = 12" by (simp add: recordB_def)
  have l: "(2 :: nat) < length ?batch" "(0 :: nat) < length ?batch"
    "(1 :: nat) < length [recordA, recordB]"
    by simp_all
  have t: "take batchSize (drop 0 ?batch) = ?batch"
    by (simp add: batchSize_def)
  have m: "min (length ?batch) (0 + batchSize) - 1 = 2"
    by (simp add: batchSize_def)
  have ca: "Committed txF = storeA" by (simp add: txF_def txA_def)
  have so: "Stdout txK = [WarningSkippingGroup 13]" by (simp add: txK_def)
  from processBatch_atomic [where database = txA and database' = txDone
      and batch = "[recordA, recordB]"] ok l(3)
  have 1: "\<exists>tx tx'. BeginTx txA = Inr tx \<and> processResults tx [recordA, recordB] = Inr tx' \<and>
      Commit tx' = Inr txDone \<and> Committed txDone = TxStore tx' \<and>
      (\<exists>txj txj'. processResults tx (take 1 [recordA, recordB]) = Inr txj \<and>
          processResult txj ([recordA, recordB] ! 1) = Inr txj')"
    by blast
  from processBatch_atomic [where database = txF and batch = ?batch and k = 2
      and tx = txBegun and txk = txK and errk = ?err and txf = txFailed] bg a b l(1)
  have 2: "processBatch txF ?batch =
        Inl (FailedToProcessResult (NewGroupID (?batch ! 2)) ?err, Rollback txFailed) \<and>
      Committed (Rollback txFailed) = Committed txF \<and>
      TxStore (Rollback txFailed) = Committed txF \<and>
      \<not> TxOpen (Rollback txFailed) \<and>
      Stdout (Rollback txFailed) = Stdout txK"
    by blast
  then have 3: "processBatch txF (take batchSize (drop 0 ?batch)) =
        Inl (FailedToProcessResult (NewGroupID (?batch ! 2)) ?err, Rollback txFailed)"
    by (simp only: t)
  from processBatch_atomic [where database = txF and i = 0 and results = ?batch
      and erri = "FailedToProcessResult (NewGroupID (?batch ! 2)) ?err"
      and failedi = "Rollback txFailed"] 3 l(2)
  have 4: "uploadLoop 0 txF ?batch =
        (Some (FailedToProcessBatch 0 (min (length ?batch) (0 + batchSize) - 1)
                 (FailedToProcessResult (NewGroupID (?batch ! 2)) ?err)), Rollback txFailed)"
    by blast
  from ok 1 bg a b 2 rb 4 show ?thesis
    by (simp only: g m ca so uploadResults_def simp_thms)
qed

subsection \<open>What processResult leaves alone\<close>

lemma driverCall_store: "driverCall tx = (ok, tx') \<Longrightarrow> TxStore tx' = TxStore tx"
  by (auto simp: driverCall_def split: list.splits)

lemma getCategory_store:
  "getCategoryIDFromProblem tx p = Inr (c, tx') \<Longrightarrow> TxStore tx' = TxStore tx"
  by (auto simp: getCategoryIDFromProblem_def split: prod.splits if_splits option.splits
           dest: driverCall_store)

lemma categoryLoop_store:
  "categoryLoop tx ps = Inr (c, tx') \<Longrightarrow> TxStore tx' = TxStore tx"
proof (induction ps arbitrary: tx)
  case Nil
  then show ?case by simp
next
  case (Cons p ps)
  then show ?case
    by (auto split: sum.splits prod.splits if_splits dest: getCategory_store)
qed

lemma create_content:
  "createExerciseGroup tx c = Inr (g, tx') \<Longrightarrow>
   problemContent (TxStore tx') = problemContent (TxStore tx)"
  by (auto simp: createExerciseGroup_def problemContent_def Let_def
           split: prod.splits if_splits dest: driverCall_store)

lemma mark_content:
  "markGroupAsDeleted tx g = Inr tx' \<Longrightarrow>
   problemContent (TxStore tx') = problemContent (TxStore tx)"
  by (auto simp: markGroupAsDeleted_def problemContent_def Let_def
           split: prod.splits if_splits dest: driverCall_store)

lemma markLoop_content:
  "markLoop tx cgs = Inr tx' \<Longrightarrow> problemContent (TxStore tx') = problemContent (TxStore tx)"
proof (induction cgs arbitrary: tx)
  case Nil
  then show ?case by simp
next
  case (Cons c cgs)
  then show ?case by (auto split: sum.splits dest: mark_content)
qed

lemma update_content:
  "updateExercisesGroup tx ps g = Inr tx' \<Longrightarrow>
   problemContent (TxStore tx') = problemContent (TxStore tx)"
  by (simp add: problemContent_def updateExercisesGroup_exercises o_def)

lemma queryRepresentatives_store:
  "queryRepresentatives tx cgs acc = Inr (reps, tx') \<Longrightarrow> TxStore tx' = TxStore tx"
proof (induction cgs arbitrary: tx acc)
  case Nil
  then show ?case by simp
next
  case (Cons c cgs)
  then show ?case
    by (auto split: prod.splits if_splits sum.splits dest: driverCall_store)
qed

lemma firstWithVideoInStore_store:
  "firstWithVideoInStore tx ps = (r, tx') \<Longrightarrow> TxStore tx' = TxStore tx"
proof (induction ps arbitrary: tx)
  case Nil
  then show ?case by simp
next
  case (Cons p ps)
  obtain ok tx1 where d: "driverCall tx = (ok, tx1)" by (cases "driverCall tx")
  from Cons.prems d have "tx' = tx1 \<or> firstWithVideoInStore tx1 ps = (r, tx')"
    by (auto split: option.splits if_splits)
  with Cons.IH driverCall_store [OF d] show ?case by auto
qed

lemma select_store:
  "selectBestRepresentativeTx tx ps cgs = Inr (r, tx') \<Longrightarrow> TxStore tx' = TxStore tx"
  by (auto simp: selectBestRepresentativeTx_def
           split: if_splits sum.splits prod.splits option.splits
           dest!: queryRepresentatives_store firstWithVideoInStore_store)

lemma setRep_content:
  "setRepresentativeExercise tx p g = Inr tx' \<Longrightarrow>
   problemContent (TxStore tx') = problemContent (TxStore tx)"
  by (simp add: problemContent_def setRepresentativeExercise_exercises o_def)

lemma processResult_content:
  assumes "processResult tx result = Inr tx'"
  shows "problemContent (TxStore tx') = problemContent (TxStore tx)"
proof (cases "length (ResultProblemIDs result) = 0")
  case True
  with assms show ?thesis by (simp add: processResult_def)
next
  case False
  with assms obtain c tx1 where c: "categoryLoop tx (ResultProblemIDs result) = Inr (c, tx1)"
    by (auto simp: processResult_def split: sum.splits)
  note s1 = categoryLoop_store [OF c]
  show ?thesis
  proof (cases "c = 0")
    case True
    with assms False c s1 show ?thesis by (auto simp: processResult_def)
  next
    case nz: False
    with assms False c obtain g tx2 tx3 tx4 r tx5 where
      st: "createExerciseGroup tx1 c = Inr (g, tx2)"
          "markLoop tx2 (CrossingGroups result) = Inr tx3"
          "updateExercisesGroup tx3 (ResultProblemIDs result) g = Inr tx4"
          "selectBestRepresentativeTx tx4 (ResultProblemIDs result) (CrossingGroups result) = Inr (r, tx5)"
          "(r \<noteq> 0 \<and> setRepresentativeExercise tx5 r g = Inr tx') \<or> (r = 0 \<and> tx' = tx5)"
      by (auto simp: processResult_def split: sum.splits if_splits)
    from st(5) have "problemContent (TxStore tx') = problemContent (TxStore tx5)"
      by (auto dest: setRep_content)
    with create_content [OF st(1)] markLoop_content [OF st(2)] update_content [OF st(3)]
      select_store [OF st(4)] s1
    show ?thesis by simp
  qed
qed


lemma keyedByProblem_content:
  "keyedByProblem st \<longleftrightarrow>
     distinct (List.map_filter (\<lambda>c. if snd (snd (snd (snd c))) then None else fst (snd c))
                 (problemContent st))"
proof -
  have h: "List.map_filter (\<lambda>e. if Deleted e then None else MathflatProblemId e) xs =
        List.map_filter (\<lambda>c. if snd (snd (snd (snd c))) then None else fst (snd c))
          (map (\<lambda>e. (ExID e, MathflatProblemId e, CategoryID e, SolutionVideoID e, Deleted e)) xs)"
    for xs :: "Exercise list"
    by (induction xs) (auto split: option.splits)
  show ?thesis unfolding keyedByProblem_def problemContent_def by (simp only: h)
qed

text \<open>
  A record that is processed without error changes no exercise's id, problem id,
  category, solution video or soft-delete mark: only group membership and the
  representative flag are written. So a store keyed by problem id stays keyed.
\<close>

theorem processResult_keeps_content:
  assumes "processResult tx result = Inr tx'"
  shows "problemContent (TxStore tx') = problemContent (TxStore tx) \<and>
         keyedByProblem (TxStore tx') = keyedByProblem (TxStore tx)"
  using processResult_content [OF assms] by (simp add: keyedByProblem_content)

theorem processResult_keeps_content_witness:
  "\<exists>tx'. processResult txA recordA = Inr tx' \<and>
     problemContent (TxStore tx') = [(1, Some 1, 7, Some 5, False), (2, Some 2, 7, None, False)] \<and>
     map ExerciseGroupID (Exercises (TxStore tx')) = [Some 100, Some 100]"
proof -
  have "\<not> isl (processResult txA recordA)" by code_simp
  then obtain tx' where t: "processResult txA recordA = Inr tx'"
    by (cases "processResult txA recordA") auto
  have c: "problemContent (TxStore txA) = [(1, Some 1, 7, Some 5, False), (2, Some 2, 7, None, False)]"
    by code_simp
  have "map_sum fst (\<lambda>tx. map ExerciseGroupID (Exercises (TxStore tx))) (processResult txA recordA)
          = Inr [Some 100, Some 100]"
    by code_simp
  with t have g: "map ExerciseGroupID (Exercises (TxStore tx')) = [Some 100, Some 100]" by simp
  from processResult_keeps_content [OF t] c g t show ?thesis by simp
qed

end
